theory Spec2Isabelle
  imports Main "HOL-Library.Word"
begin

section \<open>Machine types\<close>

text \<open>
  The model fixes the LP64 data model of the 64-bit targets the source names first
  (\<^verbatim>\<open>x86_64\<close>, \<^verbatim>\<open>aarch64\<close>, \<^verbatim>\<open>riscv64\<close>): \<^verbatim>\<open>size_t\<close> and zlib's \<^verbatim>\<open>uLong\<close> are
  64-bit unsigned words whose arithmetic wraps around. C \<^verbatim>\<open>int\<close> values (return codes,
  the loop counter, the compression level) never leave a small range and are HOL integers.
\<close>

type_synonym byte = "8 word"
type_synonym size_t = "64 word"
type_synonym uLong = "64 word"

section \<open>The C heap\<close>

text \<open>
  A heap maps the address of every live allocation to its bytes; the length of the list is
  the allocated size. \<open>brk\<close> is the next unused address and \<open>requests\<close> logs, in order,
  the size of every allocation request made so far (\<^verbatim>\<open>malloc\<close> and \<^verbatim>\<open>realloc\<close>),
  whether it succeeded or not.
\<close>

type_synonym addr = nat

record heap =
  blocks :: "addr \<rightharpoonup> byte list"
  brk :: addr
  requests :: "size_t list"

text \<open>
  Whether the C library grants a request, and what a fresh allocation holds, is outside the
  program: \<open>may_alloc A k n\<close> tells whether the request number \<open>k\<close> (counted from 0), of
  \<open>n\<close> bytes, succeeds, and \<open>junk A i\<close> is the indeterminate byte found at offset \<open>i\<close> of
  storage that was never written.
\<close>

record allocator =
  may_alloc :: "nat \<Rightarrow> size_t \<Rightarrow> bool"
  junk :: "nat \<Rightarrow> byte"

text \<open>
  Undefined behaviour of the C program is a value of the model, never a silent default:
  \<open>OutOfBounds\<close> is a read or a write past the end of an object, \<open>BadPointer\<close> the use of
  a pointer to no live allocation, \<open>ZeroSize\<close> the resizing of a live block to 0 bytes.
\<close>

datatype fault = OutOfBounds | BadPointer | ZeroSize

definition malloc :: "allocator \<Rightarrow> size_t \<Rightarrow> heap \<Rightarrow> addr option \<times> heap" where
  "malloc A n h =
     (if may_alloc A (length (requests h)) n
      then (Some (brk h),
            h\<lparr>blocks := (blocks h)(brk h \<mapsto> map (junk A) [0..<unat n]),
              brk := Suc (brk h),
              requests := requests h @ [n]\<rparr>)
      else (None, h\<lparr>requests := requests h @ [n]\<rparr>))"

definition free :: "addr option \<Rightarrow> heap \<Rightarrow> heap" where
  "free p h = (case p of None \<Rightarrow> h | Some a \<Rightarrow> h\<lparr>blocks := (blocks h)(a := None)\<rparr>)"

text \<open>
  \<^verbatim>\<open>realloc(NULL, n)\<close> is \<^verbatim>\<open>malloc(n)\<close>. A successful \<^verbatim>\<open>realloc\<close> moves the block: the
  old bytes up to the smaller of the two sizes are kept, the rest is indeterminate, and the
  old address dies. A failed one returns \<^verbatim>\<open>NULL\<close> and leaves the old block as it was.
  Resizing a live block to 0 bytes has no behaviour the C standard fixes (whether the block
  is freed depends on the library), so it is a fault.
\<close>

definition realloc :: "allocator \<Rightarrow> addr option \<Rightarrow> size_t \<Rightarrow> heap \<Rightarrow> fault + (addr option \<times> heap)" where
  "realloc A p n h =
     (case p of
        None \<Rightarrow> Inr (malloc A n h)
      | Some a \<Rightarrow>
          (case blocks h a of
             None \<Rightarrow> Inl BadPointer
           | Some old \<Rightarrow>
               if n = 0 then Inl ZeroSize
               else if may_alloc A (length (requests h)) n
               then Inr (Some (brk h),
                         h\<lparr>blocks := ((blocks h)(a := None))
                                        (brk h \<mapsto> take (unat n) old @ map (junk A) [length old..<unat n]),
                           brk := Suc (brk h),
                           requests := requests h @ [n]\<rparr>)
               else Inr (None, h\<lparr>requests := requests h @ [n]\<rparr>)))"

text \<open>Writing the bytes \<open>bs\<close> at offset \<open>off\<close> of the block at \<open>a\<close>; a write past the end
  of the allocation is a fault.\<close>

definition store :: "addr \<Rightarrow> nat \<Rightarrow> byte list \<Rightarrow> heap \<Rightarrow> fault + heap" where
  "store a off bs h =
     (case blocks h a of
        None \<Rightarrow> Inl BadPointer
      | Some blk \<Rightarrow>
          if off + length bs \<le> length blk
          then Inr (h\<lparr>blocks := (blocks h)(a \<mapsto> take off blk @ bs @ drop (off + length bs) blk)\<rparr>)
          else Inl OutOfBounds)"

text \<open>
  A pointer argument to a location owned by the caller: \<open>Null\<close>, or \<open>Loc v\<close> where \<open>v\<close>
  is the value the location holds now. Writing through it replaces \<open>v\<close>.
\<close>

datatype 'a ptr = Null | Loc 'a

section \<open>zlib\<close>

text \<open>
  zlib is linked, not part of the repository, so its three entry points are parameters.
  \<open>compress2 Z destLen source level\<close> and \<open>uncompress Z destLen source\<close> take the
  capacity of the destination and the \<^verbatim>\<open>sourceLen\<close> bytes found at \<^verbatim>\<open>source\<close>; they
  return the status code and the bytes written to the destination. The in/out length
  argument of the C functions is the length of that list afterwards.
\<close>

datatype zcode = Z_OK | Z_STREAM_ERROR | Z_DATA_ERROR | Z_MEM_ERROR | Z_BUF_ERROR

record zlib =
  compressBound :: "uLong \<Rightarrow> uLong"
  compress2 :: "uLong \<Rightarrow> byte list \<Rightarrow> int \<Rightarrow> zcode \<times> byte list"
  uncompress :: "uLong \<Rightarrow> byte list \<Rightarrow> zcode \<times> byte list"

text \<open>The \<open>n\<close> bytes a callee reads at a \<^verbatim>\<open>const\<close> pointer to the bytes \<open>src\<close>; reading
  past the end of what the pointer refers to is a fault.\<close>

definition fetch :: "byte list \<Rightarrow> size_t \<Rightarrow> fault + byte list" where
  "fetch src n = (if unat n \<le> length src then Inr (take (unat n) src) else Inl OutOfBounds)"

section \<open>Compression helpers\<close>

text \<open>The result of a helper: the \<^verbatim>\<open>int\<close> it returns, the two caller locations, the heap.\<close>

type_synonym zret = "int \<times> addr option ptr \<times> size_t ptr \<times> heap"

definition krowno_deflate ::
  "allocator \<Rightarrow> zlib \<Rightarrow> byte list option \<Rightarrow> size_t \<Rightarrow> addr option ptr \<Rightarrow> size_t ptr \<Rightarrow> int \<Rightarrow> heap
     \<Rightarrow> fault + zret" where
  "krowno_deflate A Z input input_len output output_len level h =
     (case input of
        None \<Rightarrow> Inr (- 1, output, output_len, h)
      | Some src \<Rightarrow>
          if input_len = 0 \<or> output = Null \<or> output_len = Null then Inr (- 1, output, output_len, h)
          else
            (let bound = compressBound Z input_len in
             case malloc A bound h of
               (None, h1) \<Rightarrow> Inr (- 1, output, output_len, h1)
             | (Some out, h1) \<Rightarrow>
                 (case fetch src input_len of
                    Inl f \<Rightarrow> Inl f
                  | Inr source \<Rightarrow>
                      (case compress2 Z bound source level of
                         (zres, written) \<Rightarrow>
                           (case store out 0 written h1 of
                              Inl f \<Rightarrow> Inl f
                            | Inr h2 \<Rightarrow>
                                if zres \<noteq> Z_OK then Inr (- 1, output, output_len, free (Some out) h2)
                                else Inr (0, Loc (Some out), Loc (word_of_nat (length written)), h2))))))"

text \<open>The retry loop of \<^verbatim>\<open>krowno_inflate\<close>, from iteration \<open>i\<close> with candidate capacity
  \<open>cap\<close> and the buffer \<open>out\<close> of the previous iteration (\<^verbatim>\<open>NULL\<close> before the first).\<close>

function inflate_loop ::
  "allocator \<Rightarrow> zlib \<Rightarrow> byte list \<Rightarrow> size_t \<Rightarrow> addr option ptr \<Rightarrow> size_t ptr
     \<Rightarrow> int \<Rightarrow> size_t \<Rightarrow> addr option \<Rightarrow> heap \<Rightarrow> fault + zret" where
  "inflate_loop A Z src input_len output output_len i cap out h =
     (if i < 6 then
        (case malloc A cap (free out h) of
           (None, h1) \<Rightarrow> Inr (- 1, output, output_len, h1)
         | (Some new, h1) \<Rightarrow>
             (case fetch src input_len of
                Inl f \<Rightarrow> Inl f
              | Inr source \<Rightarrow>
                  (case uncompress Z cap source of
                     (zres, written) \<Rightarrow>
                       (case store new 0 written h1 of
                          Inl f \<Rightarrow> Inl f
                        | Inr h2 \<Rightarrow>
                            if zres = Z_OK
                            then Inr (0, Loc (Some new), Loc (word_of_nat (length written)), h2)
                            else inflate_loop A Z src input_len output output_len (i + 1) (cap * 2) (Some new) h2))))
      else Inr (- 1, output, output_len, free out h))"
  by pat_completeness auto
termination
  by (relation "measure (\<lambda>(A, Z, src, input_len, output, output_len, i, cap, out, h). nat (6 - i))") auto

definition krowno_inflate ::
  "allocator \<Rightarrow> zlib \<Rightarrow> byte list option \<Rightarrow> size_t \<Rightarrow> addr option ptr \<Rightarrow> size_t ptr \<Rightarrow> heap
     \<Rightarrow> fault + zret" where
  "krowno_inflate A Z input input_len output output_len h =
     (case input of
        None \<Rightarrow> Inr (- 1, output, output_len, h)
      | Some src \<Rightarrow>
          if input_len = 0 \<or> output = Null \<or> output_len = Null then Inr (- 1, output, output_len, h)
          else
            (let cap = input_len * 4;
                 cap = (if cap < 1024 then 1024 else cap)
             in inflate_loop A Z src input_len output output_len 0 cap None h))"

declare inflate_loop.simps [simp del]

subsection \<open>What a caller observes\<close>

text \<open>The value returned, if the call ran without a fault.\<close>

definition status :: "fault + zret \<Rightarrow> int option" where
  "status r = (case r of Inl f \<Rightarrow> None | Inr (rc, outp, outp_len, h') \<Rightarrow> Some rc)"

text \<open>The candidate capacities of a call of \<^verbatim>\<open>krowno_inflate\<close> started in heap \<open>h\<close>: the sizes
  it asked \<^verbatim>\<open>malloc\<close> for, one per attempt, in order.\<close>

definition attempts :: "heap \<Rightarrow> fault + zret \<Rightarrow> size_t list" where
  "attempts h r =
     (case r of Inl f \<Rightarrow> [] | Inr (rc, outp, outp_len, h') \<Rightarrow> drop (length (requests h)) (requests h'))"

text \<open>The buffer handed back: on success, the \<^verbatim>\<open>*output_len\<close> bytes at \<^verbatim>\<open>*output\<close>.\<close>

definition returned :: "fault + zret \<Rightarrow> byte list option" where
  "returned r =
     (case r of
        Inr (rc, Loc (Some a), Loc n, h') \<Rightarrow>
          (if rc = 0 then map_option (take (unat n)) (blocks h' a) else None)
      | _ \<Rightarrow> None)"

text \<open>
  The round trip of the specification, as a caller performs it: compress \<open>b\<close>, then hand
  the returned buffer and length to \<^verbatim>\<open>krowno_inflate\<close> in the heap the first call left.
  The result is \<open>None\<close> when the compression did not return a buffer, and otherwise what
  the expansion returned.
\<close>

definition roundtrip :: "allocator \<Rightarrow> zlib \<Rightarrow> byte list \<Rightarrow> int \<Rightarrow> heap \<Rightarrow> (fault + zret) option" where
  "roundtrip A Z b level h =
     (case krowno_deflate A Z (Some b) (word_of_nat (length b)) (Loc None) (Loc 0) level h of
        Inr (rc, Loc (Some a), Loc n, h1) \<Rightarrow>
          (if rc = 0
           then map_option (\<lambda>c. krowno_inflate A Z (Some c) n (Loc None) (Loc 0) h1) (blocks h1 a)
           else None)
      | _ \<Rightarrow> None)"

section \<open>Byte accumulators\<close>

subsection \<open>Response body capture\<close>

text \<open>The field \<^verbatim>\<open>size\<close> of the C struct is \<open>rsize\<close> here, and the parameter \<^verbatim>\<open>size\<close> of
  the callback is \<open>sz\<close>: \<open>size\<close> is a constant of HOL.\<close>

record krowno_http_response =
  data :: "addr option"
  rsize :: size_t
  status_code :: int

text \<open>
  The write callback. \<open>contents\<close> is what the pointer of that name refers to; the message
  printed to \<^verbatim>\<open>stderr\<close> when \<^verbatim>\<open>realloc\<close> fails is not modelled. The result is the
  \<^verbatim>\<open>size_t\<close> returned and the response structure afterwards.
\<close>

type_synonym cbret = "size_t \<times> krowno_http_response \<times> heap"

definition krowno_curl_write_callback ::
  "allocator \<Rightarrow> byte list \<Rightarrow> size_t \<Rightarrow> size_t \<Rightarrow> krowno_http_response \<Rightarrow> heap \<Rightarrow> fault + cbret" where
  "krowno_curl_write_callback A contents sz nmemb response h =
     (let realsize = sz * nmemb in
      case realloc A (data response) (rsize response + realsize + 1) h of
        Inl f \<Rightarrow> Inl f
      | Inr (None, h1) \<Rightarrow> Inr (0, response, h1)
      | Inr (Some ptr, h1) \<Rightarrow>
          (case fetch contents realsize of
             Inl f \<Rightarrow> Inl f
           | Inr bytes \<Rightarrow>
               (case store ptr (unat (rsize response)) bytes h1 of
                  Inl f \<Rightarrow> Inl f
                | Inr h2 \<Rightarrow>
                    (let response' = response\<lparr>data := Some ptr, rsize := rsize response + realsize\<rparr> in
                     case store ptr (unat (rsize response')) [0] h2 of
                       Inl f \<Rightarrow> Inl f
                     | Inr h3 \<Rightarrow> Inr (realsize, response', h3)))))"

text \<open>
  The structure as \<^verbatim>\<open>krowno_http_get\<close> creates it with \<^verbatim>\<open>calloc\<close>, and the transfer that
  fills it. The transfer is libcurl's: by its documented contract it hands the body to the
  callback block by block, with \<open>sz = 1\<close> and \<open>nmemb\<close> the length of the block, and gives
  up as soon as the callback returns another number than \<open>sz \<times> nmemb\<close>. The flag of the
  result tells whether every block was taken.
\<close>

definition calloc_response :: krowno_http_response where
  "calloc_response = \<lparr>data = None, rsize = 0, status_code = 0\<rparr>"

fun transfer ::
  "allocator \<Rightarrow> byte list list \<Rightarrow> krowno_http_response \<Rightarrow> heap
     \<Rightarrow> fault + (bool \<times> krowno_http_response \<times> heap)" where
  "transfer A [] response h = Inr (True, response, h)"
| "transfer A (block # rest) response h =
     (case krowno_curl_write_callback A block 1 (word_of_nat (length block)) response h of
        Inl f \<Rightarrow> Inl f
      | Inr (n, response', h') \<Rightarrow>
          if n = 1 * word_of_nat (length block) then transfer A rest response' h'
          else Inr (False, response', h'))"

text \<open>The accumulated body: the \<open>rsize\<close> bytes at \<open>data\<close>, and the allocation they lie in.\<close>

definition allocation :: "heap \<Rightarrow> addr option \<Rightarrow> byte list option" where
  "allocation h p = (case p of None \<Rightarrow> None | Some a \<Rightarrow> blocks h a)"

definition body :: "krowno_http_response \<Rightarrow> heap \<Rightarrow> byte list option" where
  "body response h =
     (case data response of
        None \<Rightarrow> (if rsize response = 0 then Some [] else None)
      | Some a \<Rightarrow> map_option (take (unat (rsize response))) (blocks h a))"

subsection \<open>Subprocess output capture\<close>

text \<open>
  \<^verbatim>\<open>fgets(buffer, 256, pipe)\<close> is the C library's: it stores at most 255 bytes of the
  stream, stops after a newline (byte 10), appends a 0 byte, and returns \<^verbatim>\<open>NULL\<close> when the
  stream is at its end. \<open>fgets_line k s\<close> is the bytes one call stores when it has room for
  \<open>k\<close> of them and \<open>s\<close> is what is left of the stream; \<open>reads n s\<close> is the bytes stored by the
  successive calls with a buffer of \<open>n\<close> bytes, until the call that returns \<^verbatim>\<open>NULL\<close>.
\<close>

fun fgets_line :: "nat \<Rightarrow> byte list \<Rightarrow> byte list" where
  "fgets_line 0 s = []"
| "fgets_line (Suc k) [] = []"
| "fgets_line (Suc k) (b # s) = (if b = 10 then [b] else b # fgets_line k s)"

function reads :: "nat \<Rightarrow> byte list \<Rightarrow> byte list list" where
  "reads n s =
     (if s = [] \<or> n < 2 then []
      else fgets_line (n - 1) s # reads n (drop (length (fgets_line (n - 1) s)) s))"
  by pat_completeness auto
termination
proof (relation "measure (\<lambda>(n, s). length s)")
  show "wf (measure (\<lambda>(n, s). length s))" by simp
next
  fix n :: nat and s :: "byte list"
  assume "\<not> (s = [] \<or> n < 2)"
  then obtain k b t where "n - 1 = Suc k" and "s = b # t"
    by (cases "n - 1"; cases s) auto
  then have "0 < length (fgets_line (n - 1) s)" and "s \<noteq> []"
    by simp_all
  then show "((n, drop (length (fgets_line (n - 1) s)) s), (n, s)) \<in> measure (\<lambda>(n, s). length s)"
    by simp
qed

declare reads.simps [simp del]

text \<open>
  The buffer after a call of \<^verbatim>\<open>fgets\<close> that stored the bytes \<open>line\<close> is \<open>line\<close>, a 0 byte,
  and stale bytes. As a C string it ends at its first 0 byte: \<^verbatim>\<open>strlen\<close> counts, and
  \<^verbatim>\<open>strcpy\<close> copies, the bytes before it (and \<^verbatim>\<open>strcpy\<close> the 0 byte too).
\<close>

definition cstring :: "byte list \<Rightarrow> byte list" where
  "cstring line = takeWhile (\<lambda>b. b \<noteq> 0) line"

definition strlen :: "byte list \<Rightarrow> size_t" where
  "strlen line = word_of_nat (length (cstring line))"

definition strcpy :: "addr \<Rightarrow> nat \<Rightarrow> byte list \<Rightarrow> heap \<Rightarrow> fault + heap" where
  "strcpy dest off line h = store dest off (cstring line @ [0]) h"

text \<open>
  The body of the \<^verbatim>\<open>while\<close> loop of \<^verbatim>\<open>krowno_execute_command\<close>, for the line \<open>buffer\<close>
  just read: the accumulator afterwards, or \<open>None\<close> when \<^verbatim>\<open>realloc\<close> failed and the function
  is about to return \<open>-1\<close>.
\<close>

type_synonym accumulator = "addr \<times> size_t \<times> size_t"

definition capture_line ::
  "allocator \<Rightarrow> byte list \<Rightarrow> accumulator \<Rightarrow> heap \<Rightarrow> fault + (accumulator option \<times> heap)" where
  "capture_line A buffer acc h =
     (case acc of (result, result_size, result_capacity) \<Rightarrow>
        (let len = strlen buffer in
         if result_size + len \<ge> result_capacity then
           (let result_capacity = result_capacity * 2 in
            case realloc A (Some result) result_capacity h of
              Inl f \<Rightarrow> Inl f
            | Inr (None, h1) \<Rightarrow> Inr (None, free (Some result) h1)
            | Inr (Some new_result, h1) \<Rightarrow>
                (case strcpy new_result (unat result_size) buffer h1 of
                   Inl f \<Rightarrow> Inl f
                 | Inr h2 \<Rightarrow> Inr (Some (new_result, result_size + len, result_capacity), h2)))
         else
           (case strcpy result (unat result_size) buffer h of
              Inl f \<Rightarrow> Inl f
            | Inr h2 \<Rightarrow> Inr (Some (result, result_size + len, result_capacity), h2))))"

fun capture_loop ::
  "allocator \<Rightarrow> byte list list \<Rightarrow> accumulator \<Rightarrow> heap \<Rightarrow> fault + (accumulator option \<times> heap)" where
  "capture_loop A [] acc h = Inr (Some acc, h)"
| "capture_loop A (buffer # rest) acc h =
     (case capture_line A buffer acc h of
        Inl f \<Rightarrow> Inl f
      | Inr (None, h') \<Rightarrow> Inr (None, h')
      | Inr (Some acc', h') \<Rightarrow> capture_loop A rest acc' h')"

text \<open>
  \<^verbatim>\<open>popen\<close> and \<^verbatim>\<open>pclose\<close> are the system's: \<open>popen command\<close> is \<open>None\<close> when the pipe cannot
  be opened, and otherwise the bytes the command writes and the exit status that
  \<^verbatim>\<open>WEXITSTATUS\<close> extracts at the end.
\<close>

definition krowno_execute_command ::
  "allocator \<Rightarrow> (string \<Rightarrow> (byte list \<times> int) option) \<Rightarrow> string option
     \<Rightarrow> addr option ptr \<Rightarrow> size_t ptr \<Rightarrow> heap \<Rightarrow> fault + zret" where
  "krowno_execute_command A popen command output output_len h =
     (case command of
        None \<Rightarrow> Inr (- 1, output, output_len, h)
      | Some cmd \<Rightarrow>
          (case popen cmd of
             None \<Rightarrow> Inr (- 1, output, output_len, h)
           | Some (stream, exit_status) \<Rightarrow>
               (case malloc A 1024 h of
                  (None, h1) \<Rightarrow> Inr (- 1, output, output_len, h1)
                | (Some result, h1) \<Rightarrow>
                    (case capture_loop A (reads 256 stream) (result, 0, 1024) h1 of
                       Inl f \<Rightarrow> Inl f
                     | Inr (None, h2) \<Rightarrow> Inr (- 1, output, output_len, h2)
                     | Inr (Some (result, result_size, result_capacity), h2) \<Rightarrow>
                         Inr (exit_status,
                              (case output of Null \<Rightarrow> Null | Loc old \<Rightarrow> Loc (Some result)),
                              (case output_len of Null \<Rightarrow> Null | Loc old \<Rightarrow> Loc result_size),
                              h2)))))"

text \<open>The bytes accumulated so far: the first \<open>result_size\<close> bytes of the block at \<open>result\<close>.\<close>

definition captured :: "accumulator \<Rightarrow> heap \<Rightarrow> byte list option" where
  "captured acc h =
     (case acc of (result, result_size, result_capacity) \<Rightarrow>
        map_option (take (unat result_size)) (blocks h result))"

section \<open>Sample environment\<close>

text \<open>An allocator that grants every request, and a heap with nothing allocated.\<close>

definition generous :: allocator where
  "generous = \<lparr>may_alloc = (\<lambda>k n. True), junk = (\<lambda>i. 170)\<rparr>"

text \<open>An allocator that refuses every request.\<close>

definition stingy :: allocator where
  "stingy = \<lparr>may_alloc = (\<lambda>k n. False), junk = (\<lambda>i. 170)\<rparr>"

definition heap0 :: heap where
  "heap0 = \<lparr>blocks = Map.empty, brk = 0, requests = []\<rparr>"

text \<open>
  Two streams as zlib (1.2.13, 1.3) writes them at level 6: ten bytes \<^verbatim>\<open>A\<close> (11 bytes
  compressed) and 204800 zero bytes (221 bytes compressed).
\<close>

definition deflated_A10 :: "byte list" where
  "deflated_A10 = [120, 156, 115, 116, 132, 1, 0, 14, 1, 2, 139]"

definition deflated_zeros :: "byte list" where
  "deflated_zeros =
     [120, 156, 237, 193, 1, 13, 0, 0, 0, 194, 160, 247, 79, 109, 15, 7, 20]
     @ replicate 198 0 @ [79, 6, 32, 45, 0, 1]"

text \<open>
  A cut-down zlib that knows these two streams and nothing else. It rejects the levels
  zlib rejects (below \<open>-1\<close>, above \<open>9\<close>) with \<^verbatim>\<open>Z_STREAM_ERROR\<close>, compresses the two
  plain texts at level 6 and at the default level \<open>-1\<close>, which is 6, and reports
  \<^verbatim>\<open>Z_MEM_ERROR\<close> for anything else; it expands the two streams when the destination is
  large enough, reports \<^verbatim>\<open>Z_BUF_ERROR\<close> after filling it when it is not (and, as zlib
  does, \<^verbatim>\<open>Z_DATA_ERROR\<close> with nothing written when the destination has no room at all),
  and \<^verbatim>\<open>Z_DATA_ERROR\<close> for any other source. \<open>compressBound\<close> is zlib's formula. On these
  inputs it returns what zlib returns.
\<close>

definition inflated :: "byte list \<Rightarrow> byte list option" where
  "inflated source =
     (if source = deflated_A10 then Some (replicate 10 65)
      else if source = deflated_zeros then Some (replicate 204800 0)
      else None)"

definition zsample :: zlib where
  "zsample =
     \<lparr>compressBound = (\<lambda>n. n + drop_bit 12 n + drop_bit 14 n + drop_bit 25 n + 13),
      compress2 = (\<lambda>destLen source level.
         if level < - 1 \<or> 9 < level then (Z_STREAM_ERROR, [])
         else if level \<noteq> 6 \<and> level \<noteq> - 1 then (Z_MEM_ERROR, [])
         else if source = replicate 10 65 then (Z_OK, deflated_A10)
         else if source = replicate 204800 0 then (Z_OK, deflated_zeros)
         else (Z_MEM_ERROR, [])),
      uncompress = (\<lambda>destLen source.
         case inflated source of
           None \<Rightarrow> (Z_DATA_ERROR, [])
         | Some plain \<Rightarrow>
             if length plain \<le> unat destLen then (Z_OK, plain)
             else if destLen = 0 then (Z_DATA_ERROR, [])
             else (Z_BUF_ERROR, take (unat destLen) plain))\<rparr>"

text \<open>
  Two accumulator states. A response that has received the two bytes \<^verbatim>\<open>hi\<close>: its block
  holds them and the terminating 0. A capture whose 1024-byte block is live at address 0.
\<close>

definition terminated_body :: krowno_http_response where
  "terminated_body = \<lparr>data = Some 0, rsize = 2, status_code = 0\<rparr>"

definition terminated_heap :: heap where
  "terminated_heap = \<lparr>blocks = [0 \<mapsto> [104, 105, 0]], brk = 1, requests = [3]\<rparr>"



definition full_heap :: heap where
  "full_heap = \<lparr>blocks = [0 \<mapsto> replicate 1024 65], brk = 1, requests = [1024]\<rparr>"

section \<open>Properties of the compression helpers\<close>

subsection \<open>Stepping the retry loop\<close>

lemma requests_free [simp]: "requests (free p h) = requests h"
  and brk_free [simp]: "brk (free p h) = brk h"
  by (simp_all add: free_def split: option.splits)

lemma inflate_loop_done:
  "\<not> i < 6 \<Longrightarrow> inflate_loop A Z src input_len output output_len i cap out h
     = Inr (- 1, output, output_len, free out h)"
  by (subst inflate_loop.simps) simp

lemma inflate_loop_nomem:
  "i < 6 \<Longrightarrow> \<not> may_alloc A (length (requests h)) cap \<Longrightarrow>
   inflate_loop A Z src input_len output output_len i cap out h
     = Inr (- 1, output, output_len, (free out h)\<lparr>requests := requests h @ [cap]\<rparr>)"
  by (subst inflate_loop.simps) (simp add: malloc_def)

lemma inflate_loop_ok:
  assumes "i < 6" "may_alloc A (length (requests h)) cap" "unat input_len \<le> length src"
    and "uncompress Z cap (take (unat input_len) src) = (Z_OK, w)" "length w \<le> unat cap"
  shows "\<exists>h2. inflate_loop A Z src input_len output output_len i cap out h
             = Inr (0, Loc (Some (brk h)), Loc (word_of_nat (length w)), h2)
      \<and> requests h2 = requests h @ [cap] \<and> brk h2 = Suc (brk h)
      \<and> blocks h2 = (blocks (free out h))(brk h \<mapsto> w @ drop (length w) (map (junk A) [0..<unat cap]))"
  using assms
  apply (subst inflate_loop.simps)
  apply (simp add: malloc_def fetch_def store_def)
  done

lemma inflate_loop_retry:
  assumes "i < 6" "may_alloc A (length (requests h)) cap" "unat input_len \<le> length src"
    and "uncompress Z cap (take (unat input_len) src) = (zres, w)" "zres \<noteq> Z_OK" "length w \<le> unat cap"
  shows "\<exists>h2. inflate_loop A Z src input_len output output_len i cap out h
             = inflate_loop A Z src input_len output output_len (i + 1) (cap * 2) (Some (brk h)) h2
      \<and> requests h2 = requests h @ [cap] \<and> brk h2 = Suc (brk h)
      \<and> blocks h2 = (blocks (free out h))(brk h \<mapsto> w @ drop (length w) (map (junk A) [0..<unat cap]))"
  using assms
  apply (subst inflate_loop.simps)
  apply (simp add: malloc_def fetch_def store_def)
  apply (intro exI conjI)
     apply (rule refl)
    apply simp_all
  done

lemma map_upt_Suc_shift: "map f [0..<Suc m] = f 0 # map (\<lambda>k. f (Suc k)) [0..<m]"
  by (simp add: upt_conv_Cons map_Suc_upt[symmetric] del: upt_Suc)

lemma inflate_loop_all_fail:
  assumes "i + int m = 6" "unat input_len \<le> length src"
    and "\<forall>k<m. may_alloc A (length (requests h) + k) (cap * 2 ^ k)"
    and "\<forall>k<m. fst (uncompress Z (cap * 2 ^ k) (take (unat input_len) src)) \<noteq> Z_OK
               \<and> length (snd (uncompress Z (cap * 2 ^ k) (take (unat input_len) src))) \<le> unat (cap * 2 ^ k)"
  shows "\<exists>h'. inflate_loop A Z src input_len output output_len i cap out h
               = Inr (- 1, output, output_len, h')
             \<and> requests h' = requests h @ map (\<lambda>k. cap * 2 ^ k) [0..<m]"
  using assms
proof (induction m arbitrary: i cap out h)
  case 0
  then show ?case by (simp add: inflate_loop_done)
next
  case (Suc m)
  obtain zres w where u: "uncompress Z cap (take (unat input_len) src) = (zres, w)"
    by (cases "uncompress Z cap (take (unat input_len) src)")
  from Suc.prems(4) u have bad: "zres \<noteq> Z_OK" and fit: "length w \<le> unat cap"
    by (auto dest: spec[of _ 0])
  from Suc.prems(1) have i: "i < 6" by simp
  from Suc.prems(3) have a0: "may_alloc A (length (requests h)) cap"
    by (auto dest: spec[of _ 0])
  from inflate_loop_retry[OF i a0 Suc.prems(2) u bad fit]
  obtain h2 where h2: "requests h2 = requests h @ [cap]"
    and step: "inflate_loop A Z src input_len output output_len i cap out h
               = inflate_loop A Z src input_len output output_len (i + 1) (cap * 2) (Some (brk h)) h2"
    by blast
  have "\<exists>h'. inflate_loop A Z src input_len output output_len (i + 1) (cap * 2) (Some (brk h)) h2
               = Inr (- 1, output, output_len, h')
             \<and> requests h' = requests h2 @ map (\<lambda>k. cap * 2 * 2 ^ k) [0..<m]"
  proof (rule Suc.IH)
    show "i + 1 + int m = 6" using Suc.prems(1) by simp
    show "unat input_len \<le> length src" by fact
    show "\<forall>k<m. may_alloc A (length (requests h2) + k) (cap * 2 * 2 ^ k)"
    proof (intro allI impI)
      fix k assume "k < m"
      then have "Suc k < Suc m" by simp
      with Suc.prems(3) have "may_alloc A (length (requests h) + Suc k) (cap * 2 ^ Suc k)" by blast
      then show "may_alloc A (length (requests h2) + k) (cap * 2 * 2 ^ k)"
        by (simp add: h2 mult.assoc)
    qed
    show "\<forall>k<m. fst (uncompress Z (cap * 2 * 2 ^ k) (take (unat input_len) src)) \<noteq> Z_OK
               \<and> length (snd (uncompress Z (cap * 2 * 2 ^ k) (take (unat input_len) src))) \<le> unat (cap * 2 * 2 ^ k)"
    proof (intro allI impI)
      fix k assume "k < m"
      then have "Suc k < Suc m" by simp
      with Suc.prems(4)
      have "fst (uncompress Z (cap * 2 ^ Suc k) (take (unat input_len) src)) \<noteq> Z_OK
               \<and> length (snd (uncompress Z (cap * 2 ^ Suc k) (take (unat input_len) src))) \<le> unat (cap * 2 ^ Suc k)"
        by blast
      then show "fst (uncompress Z (cap * 2 * 2 ^ k) (take (unat input_len) src)) \<noteq> Z_OK
               \<and> length (snd (uncompress Z (cap * 2 * 2 ^ k) (take (unat input_len) src))) \<le> unat (cap * 2 * 2 ^ k)"
        by (simp add: mult.assoc)
    qed
  qed
  then show ?case
    by (auto simp: step h2 map_upt_Suc_shift mult.assoc simp del: upt_Suc)
qed


lemma inflate_loop_succeeds_at:
  assumes "i + int j < 6" "unat input_len \<le> length src"
    and "\<forall>k\<le>j. may_alloc A (length (requests h) + k) (cap * 2 ^ k)"
    and "\<forall>k<j. fst (uncompress Z (cap * 2 ^ k) (take (unat input_len) src)) \<noteq> Z_OK
               \<and> length (snd (uncompress Z (cap * 2 ^ k) (take (unat input_len) src))) \<le> unat (cap * 2 ^ k)"
    and "uncompress Z (cap * 2 ^ j) (take (unat input_len) src) = (Z_OK, w)"
    and "length w \<le> unat (cap * 2 ^ j)" "0 \<le> i"
  shows "\<exists>a h'. inflate_loop A Z src input_len output output_len i cap out h
               = Inr (0, Loc (Some a), Loc (word_of_nat (length w)), h')
             \<and> requests h' = requests h @ map (\<lambda>k. cap * 2 ^ k) [0..<Suc j]
             \<and> (\<exists>rest. blocks h' a = Some (w @ rest))"
  using assms
proof (induction j arbitrary: i cap out h)
  case 0
  from 0 have i: "i < 6" and a0: "may_alloc A (length (requests h)) cap"
    and u: "uncompress Z cap (take (unat input_len) src) = (Z_OK, w)" and fit: "length w \<le> unat cap"
    by simp_all
  from inflate_loop_ok[OF i a0 "0.prems"(2) u fit]
  obtain h2 where "inflate_loop A Z src input_len output output_len i cap out h
             = Inr (0, Loc (Some (brk h)), Loc (word_of_nat (length w)), h2)"
    "requests h2 = requests h @ [cap]"
    "blocks h2 = (blocks (free out h))(brk h \<mapsto> w @ drop (length w) (map (junk A) [0..<unat cap]))"
    by blast
  then show ?case by auto
next
  case (Suc j)
  obtain zres w0 where u: "uncompress Z cap (take (unat input_len) src) = (zres, w0)"
    by (cases "uncompress Z cap (take (unat input_len) src)")
  from Suc.prems(4) u have bad: "zres \<noteq> Z_OK" and fit: "length w0 \<le> unat cap"
    by (auto dest: spec[of _ 0])
  from Suc.prems(1) have i: "i < 6" by simp
  from Suc.prems(3) have a0: "may_alloc A (length (requests h)) cap"
    by (auto dest: spec[of _ 0])
  from inflate_loop_retry[OF i a0 Suc.prems(2) u bad fit]
  obtain h2 where h2: "requests h2 = requests h @ [cap]"
    and step: "inflate_loop A Z src input_len output output_len i cap out h
               = inflate_loop A Z src input_len output output_len (i + 1) (cap * 2) (Some (brk h)) h2"
    by blast
  have "\<exists>a h'. inflate_loop A Z src input_len output output_len (i + 1) (cap * 2) (Some (brk h)) h2
               = Inr (0, Loc (Some a), Loc (word_of_nat (length w)), h')
             \<and> requests h' = requests h2 @ map (\<lambda>k. cap * 2 * 2 ^ k) [0..<Suc j]
             \<and> (\<exists>rest. blocks h' a = Some (w @ rest))"
  proof (rule Suc.IH)
    show "i + 1 + int j < 6" using Suc.prems(1) by simp
    show "unat input_len \<le> length src" by fact
    show "\<forall>k\<le>j. may_alloc A (length (requests h2) + k) (cap * 2 * 2 ^ k)"
    proof (intro allI impI)
      fix k assume "k \<le> j"
      then have "Suc k \<le> Suc j" by simp
      with Suc.prems(3) have "may_alloc A (length (requests h) + Suc k) (cap * 2 ^ Suc k)" by blast
      then show "may_alloc A (length (requests h2) + k) (cap * 2 * 2 ^ k)"
        by (simp add: h2 mult.assoc)
    qed
    show "\<forall>k<j. fst (uncompress Z (cap * 2 * 2 ^ k) (take (unat input_len) src)) \<noteq> Z_OK
               \<and> length (snd (uncompress Z (cap * 2 * 2 ^ k) (take (unat input_len) src))) \<le> unat (cap * 2 * 2 ^ k)"
    proof (intro allI impI)
      fix k assume "k < j"
      then have "Suc k < Suc j" by simp
      with Suc.prems(4)
      have "fst (uncompress Z (cap * 2 ^ Suc k) (take (unat input_len) src)) \<noteq> Z_OK
               \<and> length (snd (uncompress Z (cap * 2 ^ Suc k) (take (unat input_len) src))) \<le> unat (cap * 2 ^ Suc k)"
        by blast
      then show "fst (uncompress Z (cap * 2 * 2 ^ k) (take (unat input_len) src)) \<noteq> Z_OK
               \<and> length (snd (uncompress Z (cap * 2 * 2 ^ k) (take (unat input_len) src))) \<le> unat (cap * 2 * 2 ^ k)"
        by (simp add: mult.assoc)
    qed
    show "uncompress Z (cap * 2 * 2 ^ j) (take (unat input_len) src) = (Z_OK, w)"
      using Suc.prems(5) by (simp add: mult.assoc)
    show "length w \<le> unat (cap * 2 * 2 ^ j)"
      using Suc.prems(6) by (simp add: mult.assoc)
    show "0 \<le> i + 1" using Suc.prems(7) by simp
  qed
  then obtain a h' where
    "inflate_loop A Z src input_len output output_len (i + 1) (cap * 2) (Some (brk h)) h2
       = Inr (0, Loc (Some a), Loc (word_of_nat (length w)), h')"
    "requests h' = requests h2 @ map (\<lambda>k. cap * 2 * 2 ^ k) [0..<Suc j]"
    "\<exists>rest. blocks h' a = Some (w @ rest)"
    by blast
  then have "inflate_loop A Z src input_len output output_len i cap out h
       = Inr (0, Loc (Some a), Loc (word_of_nat (length w)), h')
     \<and> requests h' = requests h @ map (\<lambda>k. cap * 2 ^ k) [0..<Suc (Suc j)]
     \<and> (\<exists>rest. blocks h' a = Some (w @ rest))"
    by (simp add: step h2 map_upt_Suc_shift[of _ "Suc j"] mult.assoc del: upt_Suc)
  then show ?case by blast
qed

lemma store_frame:
  "store a off bs h = Inr h2 \<Longrightarrow> requests h2 = requests h \<and> brk h2 = brk h"
  by (auto simp: store_def split: option.splits if_splits)

lemma fetch_Inr: "fetch src n = Inr source \<Longrightarrow> source = take (unat n) src"
  by (auto simp: fetch_def split: if_splits)

text \<open>Every run of the loop that does not fault.\<close>

lemma inflate_loop_trace:
  assumes "inflate_loop A Z src input_len output output_len i cap out h = Inr (rc, output', output_len', h')"
    and "i < 6"
  shows "\<exists>m. 1 \<le> m \<and> int m \<le> 6 - i
           \<and> requests h' = requests h @ map (\<lambda>k. cap * 2 ^ k) [0..<m]
           \<and> (rc \<noteq> 0 \<longrightarrow> output' = output \<and> output_len' = output_len)
           \<and> (\<forall>k. Suc k < m \<longrightarrow> may_alloc A (length (requests h) + k) (cap * 2 ^ k)
                  \<and> fst (uncompress Z (cap * 2 ^ k) (take (unat input_len) src)) \<noteq> Z_OK)
           \<and> (int m < 6 - i \<longrightarrow> \<not> may_alloc A (length (requests h) + (m - 1)) (cap * 2 ^ (m - 1))
                  \<or> fst (uncompress Z (cap * 2 ^ (m - 1)) (take (unat input_len) src)) = Z_OK)"
  using assms
proof (induction "nat (6 - i)" arbitrary: i cap out h)
  case 0
  then show ?case by simp
next
  case (Suc n)
  note run = Suc.prems(1) and i = Suc.prems(2)
  show ?case
  proof (cases "may_alloc A (length (requests h)) cap")
    case False
    with run inflate_loop_nomem[OF i False, of Z src input_len "output" output_len out]
    have "rc = - 1" "output' = output" "output_len' = output_len" "requests h' = requests h @ [cap]"
      by auto
    with False i show ?thesis
      by (intro exI[of _ 1]) simp
  next
    case alloc: True
    define hm where "hm = snd (malloc A cap (free out h))"
    have hm: "malloc A cap (free out h) = (Some (brk h), hm)" "requests hm = requests h @ [cap]"
      by (simp_all add: hm_def malloc_def alloc)
    from run have
      "(case fetch src input_len of
          Inl f \<Rightarrow> Inl f
        | Inr source \<Rightarrow>
            (case uncompress Z cap source of
               (zres, written) \<Rightarrow>
                 (case store (brk h) 0 written hm of
                    Inl f \<Rightarrow> Inl f
                  | Inr h2 \<Rightarrow>
                      if zres = Z_OK
                      then Inr (0, Loc (Some (brk h)), Loc (word_of_nat (length written)), h2)
                      else inflate_loop A Z src input_len output output_len (i + 1) (cap * 2) (Some (brk h)) h2)))
       = Inr (rc, output', output_len', h')"
      by (subst (asm) inflate_loop.simps) (simp add: hm i)
    then obtain source zres written h2 where
      f: "fetch src input_len = Inr source" and u: "uncompress Z cap source = (zres, written)"
      and st: "store (brk h) 0 written hm = Inr h2"
      and rest: "(if zres = Z_OK
                  then Inr (0, Loc (Some (brk h)), Loc (word_of_nat (length written)), h2)
                  else inflate_loop A Z src input_len output output_len (i + 1) (cap * 2) (Some (brk h)) h2)
                 = Inr (rc, output', output_len', h')"
      by (auto split: sum.splits prod.splits)
    from f have source: "source = take (unat input_len) src" by (rule fetch_Inr)
    from st hm have h2: "requests h2 = requests h @ [cap]" by (simp add: store_frame)
    show ?thesis
    proof (cases "zres = Z_OK")
      case True
      with rest have "rc = 0" "h' = h2" by simp_all
      with h2 i u source True show ?thesis
        by (intro exI[of _ 1]) simp
    next
      case bad: False
      with rest have next_run:
        "inflate_loop A Z src input_len output output_len (i + 1) (cap * 2) (Some (brk h)) h2
           = Inr (rc, output', output_len', h')" by simp
      show ?thesis
      proof (cases "i + 1 < 6")
        case False
        with next_run have "rc = - 1" "output' = output" "output_len' = output_len"
          "h' = free (Some (brk h)) h2"
          by (simp_all add: inflate_loop_done)
        with h2 i False show ?thesis
          by (intro exI[of _ 1]) simp
      next
        case True
        from Suc.hyps(2) have n: "n = nat (6 - (i + 1))" by simp
        from Suc.hyps(1)[OF n next_run True]
        obtain m where m: "1 \<le> m" "int m \<le> 6 - (i + 1)"
          and req: "requests h' = requests h2 @ map (\<lambda>k. cap * 2 * 2 ^ k) [0..<m]"
          and fr: "rc \<noteq> 0 \<longrightarrow> output' = output \<and> output_len' = output_len"
          and earlier: "\<forall>k. Suc k < m \<longrightarrow> may_alloc A (length (requests h2) + k) (cap * 2 * 2 ^ k)
                  \<and> fst (uncompress Z (cap * 2 * 2 ^ k) (take (unat input_len) src)) \<noteq> Z_OK"
          and last: "int m < 6 - (i + 1) \<longrightarrow>
                  \<not> may_alloc A (length (requests h2) + (m - 1)) (cap * 2 * 2 ^ (m - 1))
                  \<or> fst (uncompress Z (cap * 2 * 2 ^ (m - 1)) (take (unat input_len) src)) = Z_OK"
          by blast
        have c1: "requests h' = requests h @ map (\<lambda>k. cap * 2 ^ k) [0..<Suc m]"
          by (simp add: req h2 map_upt_Suc_shift[of _ m] mult.assoc del: upt_Suc)
        have c2: "\<forall>k. Suc k < Suc m \<longrightarrow> may_alloc A (length (requests h) + k) (cap * 2 ^ k)
                  \<and> fst (uncompress Z (cap * 2 ^ k) (take (unat input_len) src)) \<noteq> Z_OK"
        proof (intro allI impI)
          fix k assume k: "Suc k < Suc m"
          show "may_alloc A (length (requests h) + k) (cap * 2 ^ k)
                  \<and> fst (uncompress Z (cap * 2 ^ k) (take (unat input_len) src)) \<noteq> Z_OK"
          proof (cases k)
            case 0
            with alloc u source bad show ?thesis by simp
          next
            case (Suc k')
            with k have "Suc k' < m" by simp
            with earlier have "may_alloc A (length (requests h2) + k') (cap * 2 * 2 ^ k')
                  \<and> fst (uncompress Z (cap * 2 * 2 ^ k') (take (unat input_len) src)) \<noteq> Z_OK"
              by blast
            with Suc h2 show ?thesis by (simp add: mult.assoc)
          qed
        qed
        have c3: "int (Suc m) < 6 - i \<longrightarrow>
                  \<not> may_alloc A (length (requests h) + (Suc m - 1)) (cap * 2 ^ (Suc m - 1))
                  \<or> fst (uncompress Z (cap * 2 ^ (Suc m - 1)) (take (unat input_len) src)) = Z_OK"
        proof
          assume "int (Suc m) < 6 - i"
          then have "int m < 6 - (i + 1)" by simp
          with last have "\<not> may_alloc A (length (requests h2) + (m - 1)) (cap * 2 * 2 ^ (m - 1))
                  \<or> fst (uncompress Z (cap * 2 * 2 ^ (m - 1)) (take (unat input_len) src)) = Z_OK"
            by blast
          moreover from m(1) have "m = Suc (m - 1)" by simp
          then have "cap * 2 ^ m = cap * 2 * 2 ^ (m - 1)" "Suc (length (requests h) + (m - 1)) = length (requests h) + m"
            by (metis mult.assoc power_Suc, simp)
          ultimately show "\<not> may_alloc A (length (requests h) + (Suc m - 1)) (cap * 2 ^ (Suc m - 1))
                  \<or> fst (uncompress Z (cap * 2 ^ (Suc m - 1)) (take (unat input_len) src)) = Z_OK"
            by (simp add: h2)
        qed
        from m have "1 \<le> Suc m" "int (Suc m) \<le> 6 - i" by simp_all
        with c1 c2 c3 fr show ?thesis by blast
      qed
    qed
  qed
qed

subsection \<open>Capacity arithmetic and the whole call\<close>

lemma unat_mult_le: "unat (a * b :: size_t) \<le> unat a * unat b"
  by (simp add: unat_word_ariths)

lemma unat_pow2_small: "k < 6 \<Longrightarrow> unat (2 ^ k :: size_t) = 2 ^ k"
proof -
  assume "k < 6"
  then have "k = 0 \<or> k = 1 \<or> k = 2 \<or> k = 3 \<or> k = 4 \<or> k = 5" by arith
  then show ?thesis by (elim disjE) simp_all
qed

lemma pow2_small: "k < 6 \<Longrightarrow> (2::nat) ^ k \<le> 32"
proof -
  assume "k < 6"
  then have "(2::nat) ^ k \<le> 2 ^ 5" by (intro power_increasing) simp_all
  then show ?thesis by simp
qed

lemma unat_double_le: "k < 6 \<Longrightarrow> unat (c * 2 ^ k :: size_t) \<le> 32 * unat c"
proof -
  assume k: "k < 6"
  have "unat (c * 2 ^ k) \<le> unat c * unat (2 ^ k :: size_t)" by (rule unat_mult_le)
  also from k have "\<dots> = unat c * 2 ^ k" by (simp add: unat_pow2_small)
  also from pow2_small[OF k] have "\<dots> \<le> unat c * 32" by (rule mult_le_mono2)
  finally show ?thesis by (simp add: mult.commute)
qed

lemma first_capacity_le:
  "unat (if input_len * 4 < 1024 then 1024 else input_len * 4 :: size_t) \<le> max (4 * unat input_len) 1024"
proof (cases "input_len * 4 < 1024")
  case True
  then show ?thesis by simp
next
  case False
  have "unat (input_len * 4) \<le> unat input_len * unat (4 :: size_t)" by (rule unat_mult_le)
  with False show ?thesis by simp
qed

lemma first_capacity_exact:
  assumes "unat input_len < 2 ^ 62"
  shows "unat (if input_len * 4 < 1024 then 1024 else input_len * 4 :: size_t) = max (4 * unat input_len) 1024"
proof -
  from assms have "unat input_len * unat (4 :: size_t) < 2 ^ LENGTH(64)" by simp
  then have "unat (input_len * 4) = unat input_len * unat (4 :: size_t)"
    by (simp only: unat_mult_lem)
  then have m: "unat (input_len * 4) = 4 * unat input_len" by simp
  have lt: "input_len * 4 < 1024 \<longleftrightarrow> 4 * unat input_len < 1024"
    by (simp add: word_less_nat_alt m)
  show ?thesis
  proof (cases "input_len * 4 < 1024")
    case True
    with lt have "4 * unat input_len < 1024" by blast
    with True show ?thesis by simp
  next
    case False
    with lt have "\<not> 4 * unat input_len < 1024" by blast
    with False m show ?thesis by simp
  qed
qed

lemma unat_double_exact:
  assumes k: "k < 6" and c: "unat c < 2 ^ 59"
  shows "unat (c * 2 ^ k :: size_t) = unat c * 2 ^ k"
proof -
  from pow2_small[OF k] have "unat c * 2 ^ k \<le> unat c * 32" by (rule mult_le_mono2)
  also from c have "\<dots> < 2 ^ 64" by simp
  finally have "unat c * unat (2 ^ k :: size_t) < 2 ^ LENGTH(64)" using k by (simp add: unat_pow2_small)
  then have "unat (c * 2 ^ k) = unat c * unat (2 ^ k :: size_t)" by (simp only: unat_mult_lem)
  with k show ?thesis by (simp add: unat_pow2_small)
qed

lemma six_attempts: "map (\<lambda>k. c * 2 ^ k) [0..<6] = [c, 2 * c, 4 * c, 8 * c, 16 * c, 32 * (c :: size_t)]"
  by (simp add: upt_conv_Cons)

lemma krowno_inflate_loop:
  "input_len \<noteq> 0 \<Longrightarrow>
   krowno_inflate A Z (Some src) input_len (Loc p) (Loc l) h =
   inflate_loop A Z src input_len (Loc p) (Loc l) 0
     (if input_len * 4 < 1024 then 1024 else input_len * 4) None h"
  by (simp add: krowno_inflate_def Let_def)

lemma krowno_inflate_all_fail:
  assumes "input_len \<noteq> 0" "unat input_len \<le> length src" "\<forall>k n. may_alloc A k n"
    and "c = (if input_len * 4 < 1024 then 1024 else input_len * 4)"
    and "\<forall>k<6. fst (uncompress Z (c * 2 ^ k) (take (unat input_len) src)) \<noteq> Z_OK
               \<and> length (snd (uncompress Z (c * 2 ^ k) (take (unat input_len) src))) \<le> unat (c * 2 ^ k)"
  shows "status (krowno_inflate A Z (Some src) input_len (Loc p) (Loc l) h) = Some (- 1)
       \<and> attempts h (krowno_inflate A Z (Some src) input_len (Loc p) (Loc l) h)
           = [c, 2 * c, 4 * c, 8 * c, 16 * c, 32 * c]"
proof -
  from assms(3) have al: "\<forall>k<6. may_alloc A (length (requests h) + k) (c * 2 ^ k)" by simp
  have "0 + int 6 = 6" by simp
  from inflate_loop_all_fail[OF this assms(2) al assms(5)]
  obtain h' where "inflate_loop A Z src input_len (Loc p) (Loc l) 0 c None h = Inr (- 1, Loc p, Loc l, h')"
    "requests h' = requests h @ map (\<lambda>k. c * 2 ^ k) [0..<6]" by blast
  with assms(1,4) show ?thesis
    by (simp add: krowno_inflate_loop status_def attempts_def six_attempts del: upt_Suc)
qed

lemma zsample_corrupt: "uncompress zsample cap [0] = (Z_DATA_ERROR, [])"
  by (simp add: zsample_def inflated_def deflated_A10_def deflated_zeros_def)

lemma generous_grants: "\<forall>k n. may_alloc generous k n"
  by (simp add: generous_def)

lemma krowno_inflate_oversized:
  assumes "input_len \<noteq> 0" "unat input_len \<le> length src" "\<forall>k n. may_alloc A k n"
    and "c = (if input_len * 4 < 1024 then 1024 else input_len * 4)"
    and "\<forall>cap. unat cap < N \<longrightarrow>
               fst (uncompress Z cap (take (unat input_len) src)) \<noteq> Z_OK
             \<and> length (snd (uncompress Z cap (take (unat input_len) src))) \<le> unat cap"
    and "32 * unat c < N"
  shows "status (krowno_inflate A Z (Some src) input_len (Loc p) (Loc l) h) = Some (- 1)
       \<and> attempts h (krowno_inflate A Z (Some src) input_len (Loc p) (Loc l) h)
           = [c, 2 * c, 4 * c, 8 * c, 16 * c, 32 * c]"
proof (rule krowno_inflate_all_fail[OF assms(1,2,3,4)])
  show "\<forall>k<6. fst (uncompress Z (c * 2 ^ k) (take (unat input_len) src)) \<noteq> Z_OK
               \<and> length (snd (uncompress Z (c * 2 ^ k) (take (unat input_len) src))) \<le> unat (c * 2 ^ k)"
  proof (intro allI impI)
    fix k :: nat assume "k < 6"
    from unat_double_le[OF this, of c] assms(6) have "unat (c * 2 ^ k) < N" by simp
    with assms(5)
    show "fst (uncompress Z (c * 2 ^ k) (take (unat input_len) src)) \<noteq> Z_OK
               \<and> length (snd (uncompress Z (c * 2 ^ k) (take (unat input_len) src))) \<le> unat (c * 2 ^ k)"
      by blast
  qed
qed

text \<open>The sample zlib on its two streams and on anything else.\<close>

lemma length_deflated_zeros: "length deflated_zeros = 221"
  by (simp add: deflated_zeros_def)

lemma inflated_zeros: "inflated deflated_zeros = Some (replicate 204800 0)"
  by (simp add: inflated_def deflated_zeros_def deflated_A10_def)

lemma zsample_zeros:
  "uncompress zsample cap deflated_zeros =
     (if 204800 \<le> unat cap then (Z_OK, replicate 204800 0)
      else if cap = 0 then (Z_DATA_ERROR, [])
      else (Z_BUF_ERROR, replicate (unat cap) 0))"
  by (simp add: zsample_def inflated_zeros min_def)

lemma inflated_other: "length s \<noteq> 11 \<Longrightarrow> length s \<noteq> 221 \<Longrightarrow> inflated s = None"
  by (auto simp: inflated_def deflated_A10_def length_deflated_zeros)

lemma attempts_Inr: "attempts h (Inr (rc, outp, outp_len, h')) = drop (length (requests h)) (requests h')"
  by (simp add: attempts_def)

lemma zsample_A10:
  "uncompress zsample cap deflated_A10 =
     (if 10 \<le> unat cap then (Z_OK, replicate 10 65)
      else if cap = 0 then (Z_DATA_ERROR, [])
      else (Z_BUF_ERROR, replicate (unat cap) 65))"
  by (simp add: zsample_def inflated_def deflated_A10_def min_def)

text \<open>Compression, and the round trip up to the call of \<^verbatim>\<open>krowno_inflate\<close>.\<close>

lemma unat_of_nat_len: "n < 2 ^ 64 \<Longrightarrow> unat (word_of_nat n :: size_t) = n"
  by (simp add: unat_of_nat)

lemma krowno_deflate_ok:
  assumes "input_len \<noteq> 0" "unat input_len \<le> length src"
    and "may_alloc A (length (requests h)) (compressBound Z input_len)"
    and "compress2 Z (compressBound Z input_len) (take (unat input_len) src) level = (Z_OK, c)"
    and "length c \<le> unat (compressBound Z input_len)"
  shows "\<exists>h1 rest. krowno_deflate A Z (Some src) input_len (Loc p) (Loc l) level h
                     = Inr (0, Loc (Some (brk h)), Loc (word_of_nat (length c)), h1)
                 \<and> blocks h1 (brk h) = Some (c @ rest)"
  using assms
  by (simp add: krowno_deflate_def Let_def malloc_def fetch_def store_def)

lemma roundtrip_unfold:
  assumes "b \<noteq> []" "length b < 2 ^ 64"
    and "may_alloc A (length (requests h)) (compressBound Z (word_of_nat (length b)))"
    and "compress2 Z (compressBound Z (word_of_nat (length b))) b level = (Z_OK, c)"
    and "length c \<le> unat (compressBound Z (word_of_nat (length b)))"
  shows "\<exists>h1 rest. roundtrip A Z b level h
           = Some (krowno_inflate A Z (Some (c @ rest)) (word_of_nat (length c)) (Loc None) (Loc 0) h1)"
proof -
  from assms(2) have u: "unat (word_of_nat (length b) :: size_t) = length b"
    by (rule unat_of_nat_len)
  with assms(1) have nz: "(word_of_nat (length b) :: size_t) \<noteq> 0"
    by (metis length_0_conv unat_0)
  from u have le: "unat (word_of_nat (length b) :: size_t) \<le> length b" by simp
  from u assms(4) have cmp: "compress2 Z (compressBound Z (word_of_nat (length b)))
      (take (unat (word_of_nat (length b) :: size_t)) b) level = (Z_OK, c)" by simp
  from krowno_deflate_ok[OF nz le assms(3) cmp assms(5)]
  obtain h1 rest where "krowno_deflate A Z (Some b) (word_of_nat (length b)) (Loc None) (Loc 0) level h
                     = Inr (0, Loc (Some (brk h)), Loc (word_of_nat (length c)), h1)"
    "blocks h1 (brk h) = Some (c @ rest)" by blast
  then show ?thesis by (auto simp: roundtrip_def)
qed

subsection \<open>Empty input\<close>

text \<open>
  Claim C8. Whatever the compression level, \<^verbatim>\<open>krowno_deflate\<close> called with an input of
  length 0 returns the failure code \<open>-1\<close>, and so does \<^verbatim>\<open>krowno_inflate\<close>; in both cases
  the heap is returned exactly as it was, request log included, so the rejection comes
  before any allocation, and the output locations keep their values.
\<close>

theorem empty_input_rejected:
  "krowno_deflate A Z input 0 output output_len level h = Inr (- 1, output, output_len, h)
   \<and> krowno_inflate A Z input 0 output output_len h = Inr (- 1, output, output_len, h)"
  by (simp add: krowno_deflate_def krowno_inflate_def split: option.splits)

theorem empty_input_rejected_witness:
  "krowno_deflate generous zsample (Some []) 0 (Loc None) (Loc 0) 6 heap0
     = Inr (- 1, Loc None, Loc 0, heap0)
   \<and> krowno_inflate generous zsample (Some []) 0 (Loc None) (Loc 0) heap0
     = Inr (- 1, Loc None, Loc 0, heap0)"
  by (rule empty_input_rejected)

subsection \<open>Output parameters on failure\<close>

text \<open>
  Claim C10. Whenever \<^verbatim>\<open>krowno_deflate\<close> or \<^verbatim>\<open>krowno_inflate\<close> returns an error (a value
  other than 0), the caller's output pointer location and output length location hold what
  they held before the call: they are written on the success path only.
\<close>

theorem error_leaves_outputs_unwritten:
  assumes "r = krowno_deflate A Z input input_len output output_len level h
           \<or> r = krowno_inflate A Z input input_len output output_len h"
    and "r = Inr (rc, output', output_len', h')" and "rc \<noteq> 0"
  shows "output' = output \<and> output_len' = output_len"
  using assms(1)
proof
  assume "r = krowno_deflate A Z input input_len output output_len level h"
  with assms(2,3) show ?thesis
    by (auto simp: krowno_deflate_def Let_def split: option.splits if_splits prod.splits sum.splits)
next
  assume r: "r = krowno_inflate A Z input input_len output output_len h"
  show ?thesis
  proof (cases "input = None \<or> input_len = 0 \<or> output = Null \<or> output_len = Null")
    case True
    with r assms(2) show ?thesis
      by (auto simp: krowno_inflate_def split: option.splits)
  next
    case False
    then obtain src where "input = Some src" by auto
    with False r assms(2) have
      "inflate_loop A Z src input_len output output_len 0
         (if input_len * 4 < 1024 then 1024 else input_len * 4) None h
       = Inr (rc, output', output_len', h')"
      by (simp add: krowno_inflate_def Let_def)
    from inflate_loop_trace[OF this] assms(3) show ?thesis by auto
  qed
qed

theorem error_leaves_outputs_unwritten_witness:
  "krowno_deflate stingy zsample (Some (replicate 10 65)) 10 (Loc (Some 7)) (Loc 42) 6 heap0
     = Inr (- 1, Loc (Some 7), Loc 42, heap0\<lparr>requests := [23]\<rparr>)
   \<and> (- 1 :: int) \<noteq> 0
   \<and> (Loc (Some 7) :: addr option ptr) = Loc (Some 7) \<and> (Loc 42 :: size_t ptr) = Loc 42"
proof -
  have run: "krowno_deflate stingy zsample (Some (replicate 10 65)) 10 (Loc (Some 7)) (Loc 42) 6 heap0
     = Inr (- 1, Loc (Some 7), Loc 42, heap0\<lparr>requests := [23]\<rparr>)"
    by (simp add: krowno_deflate_def malloc_def stingy_def zsample_def heap0_def)
  have err: "(- 1 :: int) \<noteq> 0" by simp
  from error_leaves_outputs_unwritten[OF disjI1[OF refl] run err] run err
  show ?thesis by simp
qed

subsection \<open>Malformed input\<close>

text \<open>
  Claim C2 says that an input the decompression routine rejects as malformed stops
  \<^verbatim>\<open>krowno_inflate\<close> at the first attempt. The loop never looks at which failure the
  routine signalled: the one-byte input \<open>[0]\<close>, which the sample zlib rejects with
  \<^verbatim>\<open>Z_DATA_ERROR\<close> at capacity 1024, is tried six times, at doubled capacities.
\<close>

theorem corrupt_input_retried:
  "uncompress zsample 1024 [0] = (Z_DATA_ERROR, [])
   \<and> attempts heap0 (krowno_inflate generous zsample (Some [0]) 1 (Loc None) (Loc 0) heap0)
       = [1024, 2048, 4096, 8192, 16384, 32768]"
  using krowno_inflate_all_fail[of 1 "[0]" generous 1024 zsample None 0 heap0]
  by (simp add: zsample_corrupt generous_grants)

text \<open>
  Claim C2, amended. For every non-empty compressed input that the decompression routine
  rejects as malformed at whatever capacity (any code other than \<^verbatim>\<open>Z_OK\<close> and
  \<^verbatim>\<open>Z_BUF_ERROR\<close>), \<^verbatim>\<open>krowno_inflate\<close>, when its allocations succeed, makes all six
  attempts, doubling the candidate capacity after each, and only then returns \<open>-1\<close>.
\<close>

theorem malformed_input_exhausts_retries:
  assumes "input_len \<noteq> 0" "unat input_len \<le> length src" "\<forall>k n. may_alloc A k n"
    and "\<forall>cap. fst (uncompress Z cap (take (unat input_len) src)) \<notin> {Z_OK, Z_BUF_ERROR}
             \<and> length (snd (uncompress Z cap (take (unat input_len) src))) \<le> unat cap"
    and "c = (if input_len * 4 < 1024 then 1024 else input_len * 4)"
  shows "status (krowno_inflate A Z (Some src) input_len (Loc p) (Loc l) h) = Some (- 1)
       \<and> attempts h (krowno_inflate A Z (Some src) input_len (Loc p) (Loc l) h)
           = [c, 2 * c, 4 * c, 8 * c, 16 * c, 32 * c]"
proof (rule krowno_inflate_all_fail[OF assms(1,2,3,5)])
  from assms(4)
  show "\<forall>k<6. fst (uncompress Z (c * 2 ^ k) (take (unat input_len) src)) \<noteq> Z_OK
               \<and> length (snd (uncompress Z (c * 2 ^ k) (take (unat input_len) src))) \<le> unat (c * 2 ^ k)"
    by auto
qed

theorem malformed_input_exhausts_retries_witness:
  "(1 :: size_t) \<noteq> 0 \<and> unat (1 :: size_t) \<le> length [0 :: byte] \<and> (\<forall>k n. may_alloc generous k n)
   \<and> (\<forall>cap. fst (uncompress zsample cap (take (unat (1 :: size_t)) [0])) \<notin> {Z_OK, Z_BUF_ERROR}
            \<and> length (snd (uncompress zsample cap (take (unat (1 :: size_t)) [0]))) \<le> unat cap)
   \<and> status (krowno_inflate generous zsample (Some [0]) 1 (Loc None) (Loc 0) heap0) = Some (- 1)
   \<and> attempts heap0 (krowno_inflate generous zsample (Some [0]) 1 (Loc None) (Loc 0) heap0)
       = [1024, 2 * 1024, 4 * 1024, 8 * 1024, 16 * 1024, 32 * 1024]"
proof -
  have a: "(1 :: size_t) \<noteq> 0" and b: "unat (1 :: size_t) \<le> length [0 :: byte]" by simp_all
  have c: "\<forall>cap. fst (uncompress zsample cap (take (unat (1 :: size_t)) [0])) \<notin> {Z_OK, Z_BUF_ERROR}
            \<and> length (snd (uncompress zsample cap (take (unat (1 :: size_t)) [0]))) \<le> unat cap"
    by (simp add: zsample_corrupt)
  have d: "(1024 :: size_t) = (if (1 :: size_t) * 4 < 1024 then 1024 else 1 * 4)" by simp
  from malformed_input_exhausts_retries[OF a b generous_grants c d] a b c generous_grants
  show ?thesis by blast
qed

subsection \<open>The retry ceiling\<close>

text \<open>
  Claim C6 says that a payload too large for the sixth capacity fails with an error of its
  own, distinct from the one for corruption. The code has one failure value: the stream of
  204800 zero bytes (200 times the initial guess of 1024, answered \<^verbatim>\<open>Z_BUF_ERROR\<close>) and the
  malformed input \<open>[0]\<close> (answered \<^verbatim>\<open>Z_DATA_ERROR\<close>) both return \<open>-1\<close>.
\<close>

theorem exhaustion_not_distinguished:
  "fst (uncompress zsample 32768 deflated_zeros) = Z_BUF_ERROR
   \<and> fst (uncompress zsample 32768 [0]) = Z_DATA_ERROR
   \<and> status (krowno_inflate generous zsample (Some deflated_zeros) 221 (Loc None) (Loc 0) heap0) = Some (- 1)
   \<and> status (krowno_inflate generous zsample (Some [0]) 1 (Loc None) (Loc 0) heap0) = Some (- 1)"
proof -
  have "status (krowno_inflate generous zsample (Some deflated_zeros) 221 (Loc None) (Loc 0) heap0) = Some (- 1)"
    using krowno_inflate_oversized[of 221 deflated_zeros generous 1024 204800 zsample None 0 heap0]
    by (simp add: generous_grants length_deflated_zeros zsample_zeros)
  moreover
  have "status (krowno_inflate generous zsample (Some [0]) 1 (Loc None) (Loc 0) heap0) = Some (- 1)"
    using krowno_inflate_all_fail[of 1 "[0]" generous 1024 zsample None 0 heap0]
    by (simp add: zsample_corrupt generous_grants)
  ultimately show ?thesis
    by (simp add: zsample_zeros zsample_corrupt)
qed

text \<open>
  Claim C6, amended. For every non-empty compressed input whose decompressed size \<open>N\<close>
  exceeds 32 times the initial guess \<open>max (4 \<times> input_len) 1024\<close>, so that the routine
  succeeds at no capacity below \<open>N\<close> (zlib answers buffer-too-small there, and
  \<^verbatim>\<open>Z_DATA_ERROR\<close> to a destination of no room at all), \<^verbatim>\<open>krowno_inflate\<close>, when its
  allocations succeed, makes exactly six attempts, at the capacities \<open>c, 2c, \<dots>, 32c\<close>, and
  then returns \<open>-1\<close>, the value it returns for every other failure.
\<close>

theorem oversized_payload_six_attempts:
  assumes "input_len \<noteq> 0" "unat input_len \<le> length src" "\<forall>k n. may_alloc A k n"
    and "\<forall>cap. unat cap < N \<longrightarrow>
               fst (uncompress Z cap (take (unat input_len) src)) \<noteq> Z_OK
             \<and> length (snd (uncompress Z cap (take (unat input_len) src))) \<le> unat cap"
    and "32 * max (4 * unat input_len) 1024 < N"
    and "c = (if input_len * 4 < 1024 then 1024 else input_len * 4)"
  shows "status (krowno_inflate A Z (Some src) input_len (Loc p) (Loc l) h) = Some (- 1)
       \<and> attempts h (krowno_inflate A Z (Some src) input_len (Loc p) (Loc l) h)
           = [c, 2 * c, 4 * c, 8 * c, 16 * c, 32 * c]"
proof (rule krowno_inflate_oversized[OF assms(1,2,3,6,4)])
  from first_capacity_le[of input_len] assms(5,6) show "32 * unat c < N" by simp
qed

theorem oversized_payload_six_attempts_witness:
  "(221 :: size_t) \<noteq> 0 \<and> unat (221 :: size_t) \<le> length deflated_zeros
   \<and> (\<forall>k n. may_alloc generous k n)
   \<and> (\<forall>cap. uncompress zsample cap (take (unat (221 :: size_t)) deflated_zeros) =
         (if 204800 \<le> unat cap then (Z_OK, replicate 204800 0)
          else if cap = 0 then (Z_DATA_ERROR, [])
          else (Z_BUF_ERROR, replicate (unat cap) 0)))
   \<and> 32 * max (4 * unat (221 :: size_t)) 1024 < (204800 :: nat)
   \<and> status (krowno_inflate generous zsample (Some deflated_zeros) 221 (Loc None) (Loc 0) heap0) = Some (- 1)
   \<and> attempts heap0 (krowno_inflate generous zsample (Some deflated_zeros) 221 (Loc None) (Loc 0) heap0)
       = [1024, 2 * 1024, 4 * 1024, 8 * 1024, 16 * 1024, 32 * 1024]"
proof -
  have a: "(221 :: size_t) \<noteq> 0" and b: "unat (221 :: size_t) \<le> length deflated_zeros"
    by (simp_all add: length_deflated_zeros)
  have z: "\<forall>cap. uncompress zsample cap (take (unat (221 :: size_t)) deflated_zeros) =
         (if 204800 \<le> unat cap then (Z_OK, replicate 204800 0)
          else if cap = 0 then (Z_DATA_ERROR, [])
          else (Z_BUF_ERROR, replicate (unat cap) 0))"
    by (simp add: length_deflated_zeros zsample_zeros)
  then have c: "\<forall>cap. unat cap < 204800 \<longrightarrow>
               fst (uncompress zsample cap (take (unat (221 :: size_t)) deflated_zeros)) \<noteq> Z_OK
             \<and> length (snd (uncompress zsample cap (take (unat (221 :: size_t)) deflated_zeros))) \<le> unat cap"
    by simp
  have d: "32 * max (4 * unat (221 :: size_t)) 1024 < (204800 :: nat)" by simp
  have e: "(1024 :: size_t) = (if (221 :: size_t) * 4 < 1024 then 1024 else 221 * 4)" by simp
  from oversized_payload_six_attempts[OF a b generous_grants c d e] a b z d generous_grants
  show ?thesis by blast
qed

subsection \<open>Candidate capacities\<close>

text \<open>The loop returns whenever the input can be read and zlib keeps to the capacity it is
  given.\<close>

lemma inflate_loop_returns:
  assumes "unat input_len \<le> length src"
    and "\<forall>cap. length (snd (uncompress Z cap (take (unat input_len) src))) \<le> unat cap"
  shows "\<exists>ret. inflate_loop A Z src input_len outp outp_len i cap out h = Inr ret"
proof (induction "nat (6 - i)" arbitrary: i cap out h)
  case 0
  then have "\<not> i < 6" by simp
  then show ?case by (simp add: inflate_loop_done)
next
  case (Suc n)
  then have i: "i < 6" by simp
  show ?case
  proof (cases "may_alloc A (length (requests h)) cap")
    case False
    with i show ?thesis by (simp add: inflate_loop_nomem)
  next
    case True
    obtain zres w where u: "uncompress Z cap (take (unat input_len) src) = (zres, w)"
      by (cases "uncompress Z cap (take (unat input_len) src)")
    with assms(2) have fit: "length w \<le> unat cap" by (metis snd_conv)
    show ?thesis
    proof (cases "zres = Z_OK")
      case ok: True
      from inflate_loop_ok[OF i True assms(1) u[unfolded ok] fit] show ?thesis by blast
    next
      case bad: False
      from inflate_loop_retry[OF i True assms(1) u bad fit]
      obtain h2 where "inflate_loop A Z src input_len outp outp_len i cap out h
             = inflate_loop A Z src input_len outp outp_len (i + 1) (cap * 2) (Some (brk h)) h2"
        by blast
      moreover from Suc.hyps(2) have "n = nat (6 - (i + 1))" by simp
      from Suc.hyps(1)[OF this]
      have "\<exists>ret. inflate_loop A Z src input_len outp outp_len (i + 1) (cap * 2) (Some (brk h)) h2 = Inr ret" .
      ultimately show ?thesis by simp
    qed
  qed
qed

text \<open>
  Claim C7. For every non-empty compressed input of length \<open>n\<close> that a machine of the
  model can hold (the \<open>n\<close> bytes are there to read and \<open>n < 2 ^ 57\<close>, beyond any 64-bit
  address space), and a zlib that writes no more than the capacity it is given, the call
  returns, having made at least one and at most six attempts; the candidate capacity of
  the first attempt is \<open>max (4 \<times> n) 1024\<close>; an attempt among the first five that was
  allocated and failed (with buffer-too-small, or any other code) is followed by another
  attempt; and the candidate capacity of every attempt after the first is exactly twice
  that of the attempt before it.
\<close>

theorem candidate_capacities:
  assumes "input_len \<noteq> 0" and "unat input_len \<le> length src" and "unat input_len < 2 ^ 57"
    and "\<forall>cap. length (snd (uncompress Z cap (take (unat input_len) src))) \<le> unat cap"
    and "cs = attempts h (krowno_inflate A Z (Some src) input_len (Loc p) (Loc l) h)"
  shows "status (krowno_inflate A Z (Some src) input_len (Loc p) (Loc l) h) \<noteq> None
       \<and> cs \<noteq> [] \<and> length cs \<le> 6
       \<and> unat (cs ! 0) = max (4 * unat input_len) 1024
       \<and> (\<forall>i. Suc i < length cs \<longrightarrow> unat (cs ! Suc i) = 2 * unat (cs ! i))
       \<and> (\<forall>i<5. i < length cs \<and> may_alloc A (length (requests h) + i) (cs ! i)
                 \<and> fst (uncompress Z (cs ! i) (take (unat input_len) src)) \<noteq> Z_OK
               \<longrightarrow> Suc i < length cs)"
proof -
  define c where "c = (if input_len * 4 < 1024 then 1024 else input_len * 4)"
  from inflate_loop_returns[OF assms(2,4)]
  obtain rc outp outp_len h' where
    run: "inflate_loop A Z src input_len (Loc p) (Loc l) 0 c None h = Inr (rc, outp, outp_len, h')"
    by (metis prod_cases4)
  with assms(1) have whole: "krowno_inflate A Z (Some src) input_len (Loc p) (Loc l) h = Inr (rc, outp, outp_len, h')"
    by (simp add: krowno_inflate_loop c_def)
  then have st: "status (krowno_inflate A Z (Some src) input_len (Loc p) (Loc l) h) \<noteq> None"
    by (simp add: status_def)
  from whole assms(5) have cs: "cs = drop (length (requests h)) (requests h')"
    by (simp add: attempts_Inr)
  have "(0 :: int) < 6" by simp
  from inflate_loop_trace[OF run this]
  obtain m where m1: "1 \<le> m" and m2: "int m \<le> 6 - 0"
    and req: "requests h' = requests h @ map (\<lambda>k. c * 2 ^ k) [0..<m]"
    and last0: "int m < 6 - 0 \<longrightarrow> \<not> may_alloc A (length (requests h) + (m - 1)) (c * 2 ^ (m - 1))
                  \<or> fst (uncompress Z (c * 2 ^ (m - 1)) (take (unat input_len) src)) = Z_OK"
    by blast
  from m1 m2 have m: "1 \<le> m" "m \<le> 6" by simp_all
  from last0 have last: "m < 6 \<longrightarrow> \<not> may_alloc A (length (requests h) + (m - 1)) (c * 2 ^ (m - 1))
                  \<or> fst (uncompress Z (c * 2 ^ (m - 1)) (take (unat input_len) src)) = Z_OK"
    by simp
  from cs req have cs_eq: "cs = map (\<lambda>k. c * 2 ^ k) [0..<m]" by simp
  then have len: "length cs = m" by simp
  have nth: "cs ! k = c * 2 ^ k" if "k < m" for k
    using that by (simp add: cs_eq)
  from assms(3) have "unat input_len < 2 ^ 62" by simp
  then have c0: "unat c = max (4 * unat input_len) 1024"
    unfolding c_def by (rule first_capacity_exact)
  with assms(3) have small: "unat c < 2 ^ 59" by simp
  have val: "unat (cs ! k) = unat c * 2 ^ k" if "k < m" for k
    using that m(2) by (simp add: nth unat_double_exact[OF _ small])
  have "cs \<noteq> []" "length cs \<le> 6" using m len by auto
  moreover have "unat (cs ! 0) = max (4 * unat input_len) 1024"
    using val[of 0] m(1) c0 by simp
  moreover have "\<forall>i. Suc i < length cs \<longrightarrow> unat (cs ! Suc i) = 2 * unat (cs ! i)"
    by (simp add: len val)
  moreover have "\<forall>i<5. i < length cs \<and> may_alloc A (length (requests h) + i) (cs ! i)
                 \<and> fst (uncompress Z (cs ! i) (take (unat input_len) src)) \<noteq> Z_OK
               \<longrightarrow> Suc i < length cs"
  proof (intro allI impI)
    fix i :: nat
    assume i: "i < 5"
      and h: "i < length cs \<and> may_alloc A (length (requests h) + i) (cs ! i)
                 \<and> fst (uncompress Z (cs ! i) (take (unat input_len) src)) \<noteq> Z_OK"
    from h have im: "i < m" by (simp add: len)
    from h nth[OF im] have al: "may_alloc A (length (requests h) + i) (c * 2 ^ i)"
      and bad: "fst (uncompress Z (c * 2 ^ i) (take (unat input_len) src)) \<noteq> Z_OK"
      by simp_all
    show "Suc i < length cs"
    proof (rule ccontr)
      assume "\<not> Suc i < length cs"
      with im have "m = Suc i" by (simp add: len)
      with i last al bad show False by simp
    qed
  qed
  ultimately show ?thesis using st by blast
qed

theorem candidate_capacities_witness:
  "(221 :: size_t) \<noteq> 0 \<and> unat (221 :: size_t) \<le> length deflated_zeros
   \<and> unat (221 :: size_t) < 2 ^ 57
   \<and> (\<forall>cap. length (snd (uncompress zsample cap (take (unat (221 :: size_t)) deflated_zeros))) \<le> unat cap)
   \<and> fst (uncompress zsample 1024 deflated_zeros) = Z_BUF_ERROR
   \<and> fst (uncompress zsample 16384 deflated_zeros) = Z_BUF_ERROR
   \<and> status (krowno_inflate generous zsample (Some deflated_zeros) 221 (Loc None) (Loc 0) heap0) \<noteq> None
   \<and> attempts heap0 (krowno_inflate generous zsample (Some deflated_zeros) 221 (Loc None) (Loc 0) heap0)
       = [1024, 2048, 4096, 8192, 16384, 32768]
   \<and> length [1024, 2048, 4096, 8192, 16384, 32768 :: size_t] \<le> 6
   \<and> unat ([1024, 2048, 4096, 8192, 16384, 32768 :: size_t] ! 0) = max (4 * unat (221 :: size_t)) 1024
   \<and> unat ([1024, 2048, 4096, 8192, 16384, 32768 :: size_t] ! Suc 0)
       = 2 * unat ([1024, 2048, 4096, 8192, 16384, 32768 :: size_t] ! 0)
   \<and> unat ([1024, 2048, 4096, 8192, 16384, 32768 :: size_t] ! Suc 4)
       = 2 * unat ([1024, 2048, 4096, 8192, 16384, 32768 :: size_t] ! 4)"
proof -
  have run: "attempts heap0 (krowno_inflate generous zsample (Some deflated_zeros) 221 (Loc None) (Loc 0) heap0)
       = [1024, 2048, 4096, 8192, 16384, 32768]"
    using krowno_inflate_oversized[of 221 deflated_zeros generous 1024 204800 zsample None 0 heap0]
    by (simp add: generous_grants length_deflated_zeros zsample_zeros)
  then have d: "[1024, 2048, 4096, 8192, 16384, 32768]
            = attempts heap0 (krowno_inflate generous zsample (Some deflated_zeros) 221 (Loc None) (Loc 0) heap0)"
    by simp
  have a: "(221 :: size_t) \<noteq> 0" and b: "unat (221 :: size_t) \<le> length deflated_zeros"
    and c: "unat (221 :: size_t) < 2 ^ 57"
    by (simp_all add: length_deflated_zeros)
  have f: "\<forall>cap. length (snd (uncompress zsample cap (take (unat (221 :: size_t)) deflated_zeros))) \<le> unat cap"
    by (simp add: length_deflated_zeros zsample_zeros)
  have e1: "fst (uncompress zsample 1024 deflated_zeros) = Z_BUF_ERROR"
    and e2: "fst (uncompress zsample 16384 deflated_zeros) = Z_BUF_ERROR"
    by (simp_all add: zsample_zeros)
  have s0: "Suc 0 < length [1024, 2048, 4096, 8192, 16384, 32768 :: size_t]"
    and s4: "Suc 4 < length [1024, 2048, 4096, 8192, 16384, 32768 :: size_t]" by simp_all
  from candidate_capacities[OF a b c f d]
  have st: "status (krowno_inflate generous zsample (Some deflated_zeros) 221 (Loc None) (Loc 0) heap0) \<noteq> None"
    and len: "length [1024, 2048, 4096, 8192, 16384, 32768 :: size_t] \<le> 6"
    and first: "unat ([1024, 2048, 4096, 8192, 16384, 32768 :: size_t] ! 0) = max (4 * unat (221 :: size_t)) 1024"
    and dbl: "\<forall>i. Suc i < length [1024, 2048, 4096, 8192, 16384, 32768 :: size_t] \<longrightarrow>
          unat ([1024, 2048, 4096, 8192, 16384, 32768 :: size_t] ! Suc i)
          = 2 * unat ([1024, 2048, 4096, 8192, 16384, 32768 :: size_t] ! i)"
    by blast+
  from dbl s0 have d0: "unat ([1024, 2048, 4096, 8192, 16384, 32768 :: size_t] ! Suc 0)
       = 2 * unat ([1024, 2048, 4096, 8192, 16384, 32768 :: size_t] ! 0)" by blast
  from dbl s4 have d4: "unat ([1024, 2048, 4096, 8192, 16384, 32768 :: size_t] ! Suc 4)
       = 2 * unat ([1024, 2048, 4096, 8192, 16384, 32768 :: size_t] ! 4)" by blast
  from a b c f e1 e2 st d[symmetric] len first d0 d4 show ?thesis by (intro conjI)
qed

text \<open>
  The bound on \<open>n\<close> is where \<^verbatim>\<open>size_t\<close> arithmetic stops being exact: an input of
  \<open>2 ^ 62\<close> bytes, which no such machine can hold, would make \<open>input_len * 4\<close> wrap to 0
  and the first capacity 1024.
\<close>

lemma capacity_wraps_beyond_memory:
  "attempts heap0 (krowno_inflate generous zsample (Some (replicate (2 ^ 62) 0)) (2 ^ 62) (Loc None) (Loc 0) heap0)
     = [1024, 2048, 4096, 8192, 16384, 32768]
   \<and> max (4 * unat (2 ^ 62 :: size_t)) 1024 = (18446744073709551616 :: nat)"
proof -
  have "inflated (replicate (2 ^ 62) 0) = None"
    by (rule inflated_other) simp_all
  then have "\<forall>cap. uncompress zsample cap (replicate (2 ^ 62) 0) = (Z_DATA_ERROR, [])"
    by (simp add: zsample_def)
  with krowno_inflate_all_fail[of "2 ^ 62" "replicate (2 ^ 62) 0" generous 1024 zsample None 0 heap0]
  show ?thesis
    by (simp add: generous_grants)
qed

subsection \<open>Round trip\<close>

text \<open>
  Claim C1 says that every non-empty byte sequence survives compression followed by
  expansion. The retry ceiling excludes texts that compress too well: 204800 zero bytes
  compress (level 6) to 221 bytes, the six capacities tried are 1024 to 32768, and the
  expansion of what \<^verbatim>\<open>krowno_deflate\<close> returned fails with \<open>-1\<close>.
\<close>

theorem roundtrip_beyond_ceiling_fails:
  "map_option status (roundtrip generous zsample (replicate 204800 0) 6 heap0) = Some (Some (- 1))"
proof -
  have "\<exists>h1 rest. roundtrip generous zsample (replicate 204800 0) 6 heap0
           = Some (krowno_inflate generous zsample (Some (deflated_zeros @ rest))
                     (word_of_nat (length deflated_zeros)) (Loc None) (Loc 0) h1)"
    by (rule roundtrip_unfold)
       (simp_all add: generous_grants zsample_def length_deflated_zeros)
  then obtain h1 rest where r: "roundtrip generous zsample (replicate 204800 0) 6 heap0
           = Some (krowno_inflate generous zsample (Some (deflated_zeros @ rest)) 221 (Loc None) (Loc 0) h1)"
    by (auto simp: length_deflated_zeros)
  have "status (krowno_inflate generous zsample (Some (deflated_zeros @ rest)) 221 (Loc None) (Loc 0) h1) = Some (- 1)"
    using krowno_inflate_oversized[of 221 "deflated_zeros @ rest" generous 1024 204800 zsample None 0 h1]
    by (simp add: generous_grants length_deflated_zeros zsample_zeros)
  with r show ?thesis by simp
qed

text \<open>
  Claim C1, amended. Let \<open>b\<close> be a non-empty byte sequence that zlib compresses at level
  \<open>level\<close> to the non-empty sequence \<open>c\<close>, within the bound it announced, and let zlib
  expand \<open>c\<close> to \<open>b\<close> when given room for it and fail when not. If every allocation
  succeeds, \<open>c\<close> is shorter than \<open>2 ^ 57\<close> bytes and
  \<open>length b \<le> 32 \<times> max (4 \<times> length c) 1024\<close> (the sixth candidate capacity), then
  \<^verbatim>\<open>krowno_deflate\<close> followed by \<^verbatim>\<open>krowno_inflate\<close> succeeds and returns exactly \<open>b\<close>, with
  its length.
\<close>

theorem roundtrip_within_ceiling:
  assumes "b \<noteq> []"
    and "compress2 Z (compressBound Z (word_of_nat (length b))) b level = (Z_OK, c)"
    and "c \<noteq> []" and "length c \<le> unat (compressBound Z (word_of_nat (length b)))"
    and "\<forall>cap. (length b \<le> unat cap \<longrightarrow> uncompress Z cap c = (Z_OK, b))
             \<and> (unat cap < length b \<longrightarrow>
                  fst (uncompress Z cap c) \<noteq> Z_OK \<and> length (snd (uncompress Z cap c)) \<le> unat cap)"
    and "\<forall>k n. may_alloc A k n"
    and "length c < 2 ^ 57"
    and "length b \<le> 32 * max (4 * length c) 1024"
  shows "\<exists>r. roundtrip A Z b level h = Some r \<and> status r = Some 0 \<and> returned r = Some b"
proof -
  define M where "M = max (4 * length c) 1024"
  from assms(7) have M59: "M < 2 ^ 59" by (simp add: M_def)
  with assms(8) have lb: "length b < 2 ^ 64" by (simp add: M_def)
  from assms(6) have al: "may_alloc A (length (requests h)) (compressBound Z (word_of_nat (length b)))"
    by simp
  from roundtrip_unfold[OF assms(1) lb al assms(2,4)]
  obtain h1 rest where rt: "roundtrip A Z b level h
           = Some (krowno_inflate A Z (Some (c @ rest)) (word_of_nat (length c)) (Loc None) (Loc 0) h1)"
    by blast
  define n :: size_t where "n = word_of_nat (length c)"
  from assms(7) have un: "unat n = length c" unfolding n_def by (intro unat_of_nat_len) simp
  with assms(3) have nz: "n \<noteq> 0" by (metis length_0_conv unat_0)
  define c0 where "c0 = (if n * 4 < 1024 then 1024 else n * 4)"
  from assms(7) un have "unat n < 2 ^ 62" by simp
  then have c0: "unat c0 = M" unfolding c0_def M_def un[symmetric] by (rule first_capacity_exact)
  have caps: "unat (c0 * 2 ^ k) = M * 2 ^ k" if "k < 6" for k
    using unat_double_exact[OF that, of c0] M59 c0 by simp
  define j where "j = (LEAST k. length b \<le> M * 2 ^ k)"
  from assms(8) have five: "length b \<le> M * 2 ^ 5" by (simp add: M_def)
  then have j5: "j \<le> 5" unfolding j_def by (rule Least_le)
  from five have fits: "length b \<le> M * 2 ^ j" unfolding j_def by (rule LeastI)
  have small: "\<not> length b \<le> M * 2 ^ k" if "k < j" for k
    using that unfolding j_def by (rule not_less_Least)
  have src: "take (unat n) (c @ rest) = c" by (simp add: un)
  have "\<exists>a h'. inflate_loop A Z (c @ rest) n (Loc None) (Loc 0) 0 c0 None h1
               = Inr (0, Loc (Some a), Loc (word_of_nat (length b)), h')
             \<and> requests h' = requests h1 @ map (\<lambda>k. c0 * 2 ^ k) [0..<Suc j]
             \<and> (\<exists>rest. blocks h' a = Some (b @ rest))"
  proof (rule inflate_loop_succeeds_at)
    show "0 + int j < 6" using j5 by simp
    show "unat n \<le> length (c @ rest)" by (simp add: un)
    show "\<forall>k\<le>j. may_alloc A (length (requests h1) + k) (c0 * 2 ^ k)" using assms(6) by simp
    show "\<forall>k<j. fst (uncompress Z (c0 * 2 ^ k) (take (unat n) (c @ rest))) \<noteq> Z_OK
              \<and> length (snd (uncompress Z (c0 * 2 ^ k) (take (unat n) (c @ rest)))) \<le> unat (c0 * 2 ^ k)"
    proof (intro allI impI)
      fix k assume k: "k < j"
      with j5 have "k < 6" by simp
      from small[OF k] caps[OF this] have "unat (c0 * 2 ^ k) < length b" by simp
      with assms(5) show "fst (uncompress Z (c0 * 2 ^ k) (take (unat n) (c @ rest))) \<noteq> Z_OK
              \<and> length (snd (uncompress Z (c0 * 2 ^ k) (take (unat n) (c @ rest)))) \<le> unat (c0 * 2 ^ k)"
        unfolding src by blast
    qed
    from j5 have "j < 6" by simp
    from fits caps[OF this] have ok: "length b \<le> unat (c0 * 2 ^ j)" by simp
    with assms(5) show "uncompress Z (c0 * 2 ^ j) (take (unat n) (c @ rest)) = (Z_OK, b)"
      unfolding src by blast
    from ok show "length b \<le> unat (c0 * 2 ^ j)" .
    show "(0 :: int) \<le> 0" by simp
  qed
  then obtain a h' rest' where
    "inflate_loop A Z (c @ rest) n (Loc None) (Loc 0) 0 c0 None h1
               = Inr (0, Loc (Some a), Loc (word_of_nat (length b)), h')"
    "blocks h' a = Some (b @ rest')" by blast
  with nz have res: "krowno_inflate A Z (Some (c @ rest)) n (Loc None) (Loc 0) h1
               = Inr (0, Loc (Some a), Loc (word_of_nat (length b)), h')"
    and blk: "blocks h' a = Some (b @ rest')"
    by (simp_all add: krowno_inflate_loop c0_def)
  from lb have "unat (word_of_nat (length b) :: size_t) = length b" by (rule unat_of_nat_len)
  with res blk have "status (krowno_inflate A Z (Some (c @ rest)) n (Loc None) (Loc 0) h1) = Some 0"
    "returned (krowno_inflate A Z (Some (c @ rest)) n (Loc None) (Loc 0) h1) = Some b"
    by (simp_all add: status_def returned_def)
  with rt show ?thesis by (simp add: n_def)
qed

theorem roundtrip_within_ceiling_witness:
  "replicate 10 (65 :: byte) \<noteq> []
   \<and> compress2 zsample (compressBound zsample (word_of_nat (length (replicate 10 (65 :: byte)))))
        (replicate 10 65) 6 = (Z_OK, deflated_A10)
   \<and> deflated_A10 \<noteq> []
   \<and> length deflated_A10 \<le> unat (compressBound zsample (word_of_nat (length (replicate 10 (65 :: byte)))))
   \<and> (\<forall>cap. uncompress zsample cap deflated_A10 =
         (if 10 \<le> unat cap then (Z_OK, replicate 10 65)
          else if cap = 0 then (Z_DATA_ERROR, [])
          else (Z_BUF_ERROR, replicate (unat cap) 65)))
   \<and> (\<forall>k n. may_alloc generous k n)
   \<and> length deflated_A10 < 2 ^ 57
   \<and> length (replicate 10 (65 :: byte)) \<le> 32 * max (4 * length deflated_A10) 1024
   \<and> (\<exists>r. roundtrip generous zsample (replicate 10 65) 6 heap0 = Some r \<and> status r = Some 0
          \<and> returned r = Some (replicate 10 65))"
proof -
  have a: "replicate 10 (65 :: byte) \<noteq> []" by simp
  have b: "compress2 zsample (compressBound zsample (word_of_nat (length (replicate 10 (65 :: byte)))))
        (replicate 10 65) 6 = (Z_OK, deflated_A10)" by (simp add: zsample_def)
  have c: "deflated_A10 \<noteq> []" by (simp add: deflated_A10_def)
  have d: "length deflated_A10 \<le> unat (compressBound zsample (word_of_nat (length (replicate 10 (65 :: byte)))))"
    by (simp add: deflated_A10_def zsample_def)
  have e: "\<forall>cap. (length (replicate 10 (65 :: byte)) \<le> unat cap \<longrightarrow>
                    uncompress zsample cap deflated_A10 = (Z_OK, replicate 10 65))
             \<and> (unat cap < length (replicate 10 (65 :: byte)) \<longrightarrow>
                  fst (uncompress zsample cap deflated_A10) \<noteq> Z_OK
                  \<and> length (snd (uncompress zsample cap deflated_A10)) \<le> unat cap)"
    by (simp add: zsample_A10)
  have f: "length deflated_A10 < 2 ^ 57" by (simp add: deflated_A10_def)
  have g: "length (replicate 10 (65 :: byte)) \<le> 32 * max (4 * length deflated_A10) 1024" by simp
  from roundtrip_within_ceiling[OF a b c d e generous_grants f g] a b c d f g generous_grants zsample_A10
  show ?thesis by blast
qed

section \<open>Properties of the accumulators\<close>

subsection \<open>Heap operations\<close>

lemma store_Inr:
  assumes "store a off bs h = Inr h2"
  shows "\<exists>blk. blocks h a = Some blk \<and> off + length bs \<le> length blk
           \<and> blocks h2 = (blocks h)(a \<mapsto> take off blk @ bs @ drop (off + length bs) blk)
           \<and> brk h2 = brk h \<and> requests h2 = requests h"
  using assms by (auto simp: store_def split: option.splits if_splits)

lemma store_ok:
  assumes "blocks h a = Some blk" "off + length bs \<le> length blk"
  shows "\<exists>h2. store a off bs h = Inr h2
           \<and> blocks h2 = (blocks h)(a \<mapsto> take off blk @ bs @ drop (off + length bs) blk)
           \<and> brk h2 = brk h \<and> requests h2 = requests h"
  using assms by (simp add: store_def)

lemma realloc_Inr:
  assumes "realloc A p n h = Inr (q, h1)"
  shows "requests h1 = requests h @ [n] \<and>
     (if may_alloc A (length (requests h)) n
      then q = Some (brk h) \<and> brk h1 = Suc (brk h)
           \<and> (\<exists>old. (p = None \<and> old = [] \<or> allocation h p = Some old)
                 \<and> blocks h1 = (blocks (free p h))
                       (brk h \<mapsto> take (unat n) old @ map (junk A) [length old..<unat n]))
      else q = None \<and> blocks h1 = blocks h \<and> brk h1 = brk h)"
  using assms
  by (auto simp: realloc_def malloc_def allocation_def free_def split: option.splits if_splits)

lemma realloc_granted:
  assumes "may_alloc A (length (requests h)) n" "p = None \<and> old = [] \<or> allocation h p = Some old"
    and "n \<noteq> 0"
  shows "\<exists>h1. realloc A p n h = Inr (Some (brk h), h1)
           \<and> requests h1 = requests h @ [n] \<and> brk h1 = Suc (brk h)
           \<and> blocks h1 = (blocks (free p h))
                 (brk h \<mapsto> take (unat n) old @ map (junk A) [length old..<unat n])"
  using assms
  by (auto simp: realloc_def malloc_def allocation_def free_def split: option.splits)

lemma realloc_refused:
  assumes "\<not> may_alloc A (length (requests h)) n" "p = None \<or> allocation h p \<noteq> None"
    and "n \<noteq> 0"
  shows "realloc A p n h = Inr (None, h\<lparr>requests := requests h @ [n]\<rparr>)"
  using assms
  by (auto simp: realloc_def malloc_def allocation_def split: option.splits)

lemma length_grown: "length (take n old @ map f [length old..<n]) = n"
  by auto

lemma fetch_ok: "unat n \<le> length src \<Longrightarrow> fetch src n = Inr (take (unat n) src)"
  by (simp add: fetch_def)

lemma unat_succ: "unat x + 1 \<le> unat (x + 1 :: size_t) \<Longrightarrow> unat (x + 1) = unat x + 1"
proof -
  assume a: "unat x + 1 \<le> unat (x + 1)"
  then have "1 + x \<noteq> 0" by (auto simp: add.commute)
  then have "unat (1 + x) = Suc (unat x)" by (rule unatSuc)
  then show ?thesis by (simp add: add.commute)
qed

subsection \<open>One block of a response body\<close>

lemma callback_granted_terminated:
  assumes run: "krowno_curl_write_callback A contents sz nmemb response h = Inr (n, response', h')"
    and granted: "may_alloc A (length (requests h)) (rsize response + sz * nmemb + 1)"
  shows "\<exists>a blk. data response' = Some a \<and> blocks h' a = Some blk
           \<and> length blk = unat (rsize response') + 1 \<and> blk ! unat (rsize response') = 0"
proof -
  define N where "N = rsize response + sz * nmemb + 1"
  from run obtain q h1 where re: "realloc A (data response) N h = Inr (q, h1)"
    by (auto simp: krowno_curl_write_callback_def Let_def N_def split: sum.splits)
  from realloc_Inr[OF re] granted obtain old where q: "q = Some (brk h)"
    and b1: "blocks h1 = (blocks (free (data response) h))
                (brk h \<mapsto> take (unat N) old @ map (junk A) [length old..<unat N])"
    by (auto simp: N_def)
  define nb where "nb = take (unat N) old @ map (junk A) [length old..<unat N]"
  have lnb: "length nb = unat N" unfolding nb_def by (rule length_grown)
  from b1 have b1': "blocks h1 (brk h) = Some nb" by (simp add: nb_def)
  from run re q obtain bytes h2 where
    st1: "store (brk h) (unat (rsize response)) bytes h1 = Inr h2"
    and st2: "store (brk h) (unat (rsize response + sz * nmemb)) [0] h2 = Inr h'"
    and r': "response' = response\<lparr>data := Some (brk h), rsize := rsize response + sz * nmemb\<rparr>"
    by (auto simp: krowno_curl_write_callback_def Let_def N_def split: sum.splits)
  from store_Inr[OF st1] b1' obtain blk2 where b2: "blocks h2 (brk h) = Some blk2" and l2: "length blk2 = unat N"
    by (auto simp: lnb)
  from store_Inr[OF st2] b2 have fit: "unat (rsize response + sz * nmemb) + 1 \<le> unat N"
    and b3: "blocks h' (brk h) = Some (take (unat (rsize response + sz * nmemb)) blk2 @ [0]
               @ drop (unat (rsize response + sz * nmemb) + 1) blk2)"
    by (auto simp: l2)
  from fit have N: "unat N = unat (rsize response + sz * nmemb) + 1"
    unfolding N_def by (rule unat_succ)
  show ?thesis
    using r' b3 l2 N by (simp add: nth_append)
qed

lemma unat_sum3:
  "unat (a :: size_t) + unat (b :: size_t) + 1 < 2 ^ 64 \<Longrightarrow>
   unat (a + b) = unat a + unat b \<and> unat (a + b + 1) = unat a + unat b + 1"
proof -
  assume lt: "unat a + unat b + 1 < 2 ^ 64"
  then have "unat a + unat b < 2 ^ LENGTH(64)" by simp
  then have ab: "unat (a + b) = unat a + unat b" by (simp only: unat_add_lem)
  with lt have "unat (a + b) + unat (1 :: size_t) < 2 ^ LENGTH(64)" by simp
  then have "unat (a + b + 1) = unat (a + b) + unat (1 :: size_t)" by (simp only: unat_add_lem)
  with ab show ?thesis by simp
qed

lemma callback_appends:
  assumes granted: "may_alloc A (length (requests h)) (rsize r + sz * nmemb + 1)"
    and old: "data r = None \<and> old = [] \<or> allocation h (data r) = Some old"
    and inside: "unat (rsize r) \<le> length old"
    and src: "unat (sz * nmemb) \<le> length contents"
    and small: "unat (rsize r) + unat (sz * nmemb) + 1 < 2 ^ 64"
  shows "\<exists>h'. krowno_curl_write_callback A contents sz nmemb r h
                = Inr (sz * nmemb, r\<lparr>data := Some (brk h), rsize := rsize r + sz * nmemb\<rparr>, h')
           \<and> blocks h' = (blocks (free (data r) h))
                 (brk h \<mapsto> take (unat (rsize r)) old @ take (unat (sz * nmemb)) contents @ [0])
           \<and> brk h' = Suc (brk h) \<and> requests h' = requests h @ [rsize r + sz * nmemb + 1]"
proof -
  define N where "N = rsize r + sz * nmemb + 1"
  define s where "s = unat (rsize r)"
  define m where "m = unat (sz * nmemb)"
  from unat_sum3[OF small] have u1: "unat (rsize r + sz * nmemb) = s + m" and uN: "unat N = s + m + 1"
    by (simp_all add: N_def s_def m_def)
  define nb where "nb = take (unat N) old @ map (junk A) [length old..<unat N]"
  have lnb: "length nb = s + m + 1" unfolding nb_def uN[symmetric] by (rule length_grown)
  from inside have pre: "take s nb = take s old" by (simp add: nb_def s_def uN)
  from uN have "N \<noteq> 0" by auto
  from realloc_granted[OF granted[folded N_def] old this]
  obtain h1 where re: "realloc A (data r) N h = Inr (Some (brk h), h1)"
    and r1: "requests h1 = requests h @ [N]" and k1: "brk h1 = Suc (brk h)"
    and b1: "blocks h1 = (blocks (free (data r) h))(brk h \<mapsto> nb)"
    by (auto simp: nb_def)
  have f: "fetch contents (sz * nmemb) = Inr (take m contents)"
    using src by (simp add: fetch_ok m_def)
  have lm: "length (take m contents) = m" using src by (simp add: m_def)
  from b1 have "blocks h1 (brk h) = Some nb" by simp
  from store_ok[OF this, of s "take m contents"] lnb lm
  obtain h2 where st1: "store (brk h) s (take m contents) h1 = Inr h2"
    and b2: "blocks h2 = (blocks h1)(brk h \<mapsto> take s nb @ take m contents @ drop (s + m) nb)"
    and k2: "brk h2 = brk h1" and r2: "requests h2 = requests h1"
    by auto
  define blk2 where "blk2 = take s nb @ take m contents @ drop (s + m) nb"
  have l2: "length blk2 = s + m + 1" using lnb lm by (simp add: blk2_def)
  from b2 have "blocks h2 (brk h) = Some blk2" by (simp add: blk2_def)
  from store_ok[OF this, of "s + m" "[0]"] l2
  obtain h3 where st2: "store (brk h) (s + m) [0] h2 = Inr h3"
    and b3: "blocks h3 = (blocks h2)(brk h \<mapsto> take (s + m) blk2 @ [0] @ drop (s + m + 1) blk2)"
    and k3: "brk h3 = brk h2" and r3: "requests h3 = requests h2"
    by auto
  have fin: "take (s + m) blk2 @ [0] @ drop (s + m + 1) blk2 = take s old @ take m contents @ [0]"
    using lnb lm l2 pre by (simp add: blk2_def)
  have "krowno_curl_write_callback A contents sz nmemb r h
          = Inr (sz * nmemb, r\<lparr>data := Some (brk h), rsize := rsize r + sz * nmemb\<rparr>, h3)"
    using re f st1 st2
    by (simp add: krowno_curl_write_callback_def Let_def N_def[symmetric] s_def[symmetric] u1)
  moreover have "blocks h3 = (blocks h2)(brk h \<mapsto> take s old @ take m contents @ [0])"
    using b3 unfolding fin .
  then have "blocks h3 = (blocks (free (data r) h))(brk h \<mapsto> take s old @ take m contents @ [0])"
    by (simp add: b2 b1)
  moreover have "brk h3 = Suc (brk h)" "requests h3 = requests h @ [N]"
    by (simp_all add: k3 k2 k1 r3 r2 r1)
  ultimately show ?thesis unfolding N_def s_def m_def by blast
qed

subsection \<open>A whole transfer\<close>

lemma take_full: "take n z = acc \<Longrightarrow> length acc = n \<Longrightarrow> n \<le> length z"
  by (metis length_take min.cobounded1)

lemma body_Some:
  assumes "body r h = Some acc" "unat (rsize r) = length acc"
  shows "\<exists>old. (data r = None \<and> old = [] \<or> allocation h (data r) = Some old)
           \<and> take (unat (rsize r)) old = acc \<and> unat (rsize r) \<le> length old"
proof (cases "data r")
  case None
  with assms(1) have "acc = []" by (simp add: body_def split: if_splits)
  with None assms(2) show ?thesis by (intro exI[of _ "[]"]) simp
next
  case (Some a)
  with assms(1) obtain old where "blocks h a = Some old" "take (unat (rsize r)) old = acc"
    by (auto simp: body_def)
  moreover from this assms(2) have "unat (rsize r) \<le> length old"
    by (intro take_full[of _ old acc]) simp_all
  ultimately show ?thesis using Some
    by (intro exI[of _ old]) (simp add: allocation_def)
qed

lemma transfer_appends:
  assumes "\<forall>k n. may_alloc A k n"
    and "body r h = Some acc" "unat (rsize r) = length acc"
    and "length acc + length (concat chunks) + 1 < 2 ^ 64"
  shows "\<exists>r' h'. transfer A chunks r h = Inr (True, r', h')
           \<and> body r' h' = Some (acc @ concat chunks)
           \<and> unat (rsize r') = length acc + length (concat chunks)"
  using assms(2-)
proof (induction chunks arbitrary: r h acc)
  case Nil
  then show ?case by simp
next
  case (Cons chunk chunks)
  define n :: size_t where "n = word_of_nat (length chunk)"
  from Cons.prems(3) have "length chunk < 2 ^ 64" by simp
  then have un: "unat n = length chunk" unfolding n_def by (rule unat_of_nat_len)
  from body_Some[OF Cons.prems(1,2)]
  obtain old where old: "data r = None \<and> old = [] \<or> allocation h (data r) = Some old"
    and pre: "take (unat (rsize r)) old = acc" and inside: "unat (rsize r) \<le> length old"
    by blast
  have granted: "may_alloc A (length (requests h)) (rsize r + 1 * n + 1)" using assms(1) by simp
  have src: "unat (1 * n) \<le> length chunk" by (simp add: un)
  have small: "unat (rsize r) + unat (1 * n) + 1 < 2 ^ 64"
    using Cons.prems(2,3) by (simp add: un)
  from callback_appends[OF granted old inside src small]
  obtain h1 where cb: "krowno_curl_write_callback A chunk 1 n r h
                = Inr (1 * n, r\<lparr>data := Some (brk h), rsize := rsize r + 1 * n\<rparr>, h1)"
    and b1: "blocks h1 = (blocks (free (data r) h))
                 (brk h \<mapsto> take (unat (rsize r)) old @ take (unat (1 * n)) chunk @ [0])"
    by blast
  define r1 where "r1 = r\<lparr>data := Some (brk h), rsize := rsize r + n\<rparr>"
  from unat_sum3[OF small] have sz1: "unat (rsize r1) = length (acc @ chunk)"
    by (simp add: r1_def un Cons.prems(2))
  have body1: "body r1 h1 = Some (acc @ chunk)"
    using sz1 by (simp add: body_def r1_def b1 pre un)
  have "length (acc @ chunk) + length (concat chunks) + 1 < 2 ^ 64"
    using Cons.prems(3) by simp
  from Cons.IH[OF body1 sz1 this]
  obtain r' h' where "transfer A chunks r1 h1 = Inr (True, r', h')"
    "body r' h' = Some ((acc @ chunk) @ concat chunks)"
    "unat (rsize r') = length (acc @ chunk) + length (concat chunks)" by blast
  with cb show ?case
    by (simp add: n_def[symmetric] r1_def)
qed

subsection \<open>One line of subprocess output\<close>

lemma unat_sum2:
  "unat (a :: size_t) + n < 2 ^ 64 \<Longrightarrow> unat (a + word_of_nat n) = unat a + n"
proof -
  assume lt: "unat a + n < 2 ^ 64"
  then have n: "unat (word_of_nat n :: size_t) = n" by (intro unat_of_nat_len) simp
  with lt have "unat a + unat (word_of_nat n :: size_t) < 2 ^ LENGTH(64)" by simp
  then have "unat (a + word_of_nat n) = unat a + unat (word_of_nat n :: size_t)"
    by (simp only: unat_add_lem)
  with n show ?thesis by simp
qed

lemma unat_twice: "2 * unat (c :: size_t) < 2 ^ 64 \<Longrightarrow> unat (c * 2) = 2 * unat c"
proof -
  assume "2 * unat c < 2 ^ 64"
  then have "unat c * unat (2 :: size_t) < 2 ^ LENGTH(64)" by simp
  then have "unat (c * 2) = unat c * unat (2 :: size_t)" by (simp only: unat_mult_lem)
  then show ?thesis by simp
qed

lemma capture_line_fits:
  assumes blk: "blocks h a = Some blk" "length blk = unat cap"
    and room: "unat sz + length (cstring buffer) < unat cap"
  shows "\<exists>h' rest. capture_line A buffer (a, sz, cap) h
             = Inr (Some (a, sz + strlen buffer, cap), h')
           \<and> blocks h' = (blocks h)(a \<mapsto> take (unat sz) blk @ cstring buffer @ [0] @ rest)
           \<and> length (take (unat sz) blk @ cstring buffer @ [0] @ rest) = unat cap
           \<and> requests h' = requests h \<and> brk h' = brk h
           \<and> unat (sz + strlen buffer) = unat sz + length (cstring buffer)"
proof -
  define L where "L = length (cstring buffer)"
  have "unat cap < 2 ^ 64" using unsigned_less[of cap] by simp
  with room have lt: "unat sz + L < 2 ^ 64" by (simp add: L_def)
  from unat_sum2[OF lt] have u: "unat (sz + strlen buffer) = unat sz + L"
    by (simp add: strlen_def L_def)
  with room have no: "\<not> cap \<le> sz + strlen buffer"
    by (simp add: word_le_nat_alt L_def)
  from room blk(2) have "unat sz + length (cstring buffer @ [0]) \<le> length blk" by simp
  from store_ok[OF blk(1) this]
  obtain h2 where st: "store a (unat sz) (cstring buffer @ [0]) h = Inr h2"
    and b2: "blocks h2 = (blocks h)(a \<mapsto> take (unat sz) blk @ (cstring buffer @ [0])
               @ drop (unat sz + length (cstring buffer @ [0])) blk)"
    and "brk h2 = brk h" "requests h2 = requests h" by blast
  moreover have "capture_line A buffer (a, sz, cap) h = Inr (Some (a, sz + strlen buffer, cap), h2)"
    using no st by (simp add: capture_line_def Let_def strcpy_def)
  moreover have "length (take (unat sz) blk @ cstring buffer @ [0]
               @ drop (unat sz + length (cstring buffer @ [0])) blk) = unat cap"
    using room blk(2) by simp
  ultimately show ?thesis using u
    by (intro exI[of _ h2] exI[of _ "drop (unat sz + length (cstring buffer @ [0])) blk"])
       (simp add: L_def)
qed

lemma capture_line_grows:
  assumes blk: "blocks h a = Some blk" "length blk = unat cap"
    and full: "unat cap \<le> unat sz + length (cstring buffer)"
    and inside: "unat sz \<le> unat cap"
    and room: "unat sz + length (cstring buffer) < 2 * unat cap"
    and nowrap: "2 * unat cap < 2 ^ 64"
    and granted: "may_alloc A (length (requests h)) (cap * 2)"
  shows "\<exists>h' rest. capture_line A buffer (a, sz, cap) h
             = Inr (Some (brk h, sz + strlen buffer, cap * 2), h')
           \<and> blocks h' = ((blocks h)(a := None))
                 (brk h \<mapsto> take (unat sz) blk @ cstring buffer @ [0] @ rest)
           \<and> length (take (unat sz) blk @ cstring buffer @ [0] @ rest) = 2 * unat cap
           \<and> requests h' = requests h @ [cap * 2] \<and> brk h' = Suc (brk h)
           \<and> unat (sz + strlen buffer) = unat sz + length (cstring buffer)
           \<and> unat (cap * 2) = 2 * unat cap"
proof -
  define L where "L = length (cstring buffer)"
  from room nowrap have lt: "unat sz + L < 2 ^ 64" by (simp add: L_def)
  from unat_sum2[OF lt] have u: "unat (sz + strlen buffer) = unat sz + L"
    by (simp add: strlen_def L_def)
  with full have yes: "cap \<le> sz + strlen buffer"
    by (simp add: word_le_nat_alt L_def)
  from unat_twice[OF nowrap] have c2: "unat (cap * 2) = 2 * unat cap" .
  define nb where "nb = take (unat (cap * 2)) blk @ map (junk A) [length blk..<unat (cap * 2)]"
  have lnb: "length nb = 2 * unat cap" unfolding nb_def c2[symmetric] by (rule length_grown)
  have pre: "take (unat sz) nb = take (unat sz) blk"
    using inside blk(2) by (simp add: nb_def c2)
  have "Some a = None \<and> blk = [] \<or> allocation h (Some a) = Some blk"
    using blk(1) by (simp add: allocation_def)
  moreover from c2 room have "cap * 2 \<noteq> 0" by auto
  ultimately obtain h1 where re: "realloc A (Some a) (cap * 2) h = Inr (Some (brk h), h1)"
    and r1: "requests h1 = requests h @ [cap * 2]" and k1: "brk h1 = Suc (brk h)"
    and b1: "blocks h1 = (blocks (free (Some a) h))(brk h \<mapsto> nb)"
    using realloc_granted[OF granted, of "Some a" blk] by (auto simp: nb_def)
  from b1 have at: "blocks h1 (brk h) = Some nb" by simp
  from room lnb have "unat sz + length (cstring buffer @ [0]) \<le> length nb" by simp
  from store_ok[OF at this]
  obtain h2 where st: "store (brk h) (unat sz) (cstring buffer @ [0]) h1 = Inr h2"
    and b2: "blocks h2 = (blocks h1)(brk h \<mapsto> take (unat sz) nb @ (cstring buffer @ [0])
               @ drop (unat sz + length (cstring buffer @ [0])) nb)"
    and k2: "brk h2 = brk h1" and r2: "requests h2 = requests h1" by blast
  have run: "capture_line A buffer (a, sz, cap) h
               = Inr (Some (brk h, sz + strlen buffer, cap * 2), h2)"
    using yes re st by (simp add: capture_line_def Let_def strcpy_def)
  have b2': "blocks h2 = ((blocks h)(a := None))
               (brk h \<mapsto> take (unat sz) blk @ cstring buffer @ [0]
                  @ drop (unat sz + length (cstring buffer @ [0])) nb)"
    by (simp add: b2 b1 pre free_def)
  have len: "length (take (unat sz) blk @ cstring buffer @ [0]
                  @ drop (unat sz + length (cstring buffer @ [0])) nb) = 2 * unat cap"
    using room lnb inside blk(2) by simp
  show ?thesis
    using run b2' len r1 r2 k1 k2 u c2
    by (intro exI[of _ h2] exI[of _ "drop (unat sz + length (cstring buffer @ [0])) nb"])
       (simp add: L_def)
qed

lemma krowno_execute_command_gives_up:
  assumes "popen cmd = Some (stream, exit_status)" "malloc A 1024 h = (Some result, h1)"
    and "capture_loop A (reads 256 stream) (result, 0, 1024) h1 = Inr (None, h2)"
  shows "krowno_execute_command A popen (Some cmd) output output_len h
           = Inr (- 1, output, output_len, h2)"
  using assms by (simp add: krowno_execute_command_def)

lemma capture_line_refused:
  assumes "\<not> may_alloc A (length (requests h)) (cap * 2)" "blocks h a = Some blk"
    and "unat cap \<le> unat sz + length (cstring buffer)"
    and "unat sz + length (cstring buffer) < 2 ^ 64"
    and "cap * 2 \<noteq> 0"
  shows "\<exists>h'. capture_line A buffer (a, sz, cap) h = Inr (None, h')
           \<and> blocks h' = (blocks h)(a := None)"
proof -
  from unat_sum2[OF assms(4)] assms(3) have "cap \<le> sz + strlen buffer"
    by (simp add: strlen_def word_le_nat_alt)
  moreover have "realloc A (Some a) (cap * 2) h = Inr (None, h\<lparr>requests := requests h @ [cap * 2]\<rparr>)"
    using assms(1,2,5) by (intro realloc_refused) (simp_all add: allocation_def)
  ultimately show ?thesis
    by (simp add: capture_line_def Let_def free_def)
qed

subsection \<open>A whole capture\<close>

lemma capture_loop_appends:
  assumes granted: "\<forall>k n. may_alloc A k n"
    and short: "\<forall>l \<in> set lines. length (cstring l) \<le> 255"
    and blk: "blocks h a = Some blk" "length blk = unat cap"
    and acc: "take (unat sz) blk = acc" "unat sz = length acc"
    and inv: "unat sz < unat cap" "1024 \<le> unat cap" "unat cap \<le> max 1024 (2 * unat sz)"
    and total: "length acc + length (concat (map cstring lines)) < 2 ^ 62"
  shows "\<exists>a' sz' cap' h'. capture_loop A lines (a, sz, cap) h = Inr (Some (a', sz', cap'), h')
           \<and> captured (a', sz', cap') h' = Some (acc @ concat (map cstring lines))
           \<and> unat sz' = length acc + length (concat (map cstring lines))"
  using short blk acc inv total
proof (induction lines arbitrary: h a blk cap sz acc)
  case Nil
  then show ?case by (simp add: captured_def)
next
  case (Cons l lines)
  define L where "L = length (cstring l)"
  from Cons.prems(1) have L: "L \<le> 255" and short': "\<forall>l \<in> set lines. length (cstring l) \<le> 255"
    by (simp_all add: L_def)
  note blk = Cons.prems(2,3) and acc = Cons.prems(4,5) and inv = Cons.prems(6,7,8)
  from Cons.prems(9) have total: "length acc + L + length (concat (map cstring lines)) < 2 ^ 62"
    by (simp add: L_def)
  have total': "length (acc @ cstring l) + length (concat (map cstring lines)) < 2 ^ 62"
    using total by (simp add: L_def)
  show ?case
  proof (cases "unat sz + L < unat cap")
    case True
    from capture_line_fits[OF blk True[unfolded L_def], of A]
    obtain h1 rest where step: "capture_line A l (a, sz, cap) h = Inr (Some (a, sz + strlen l, cap), h1)"
      and b1: "blocks h1 = (blocks h)(a \<mapsto> take (unat sz) blk @ cstring l @ [0] @ rest)"
      and l1: "length (take (unat sz) blk @ cstring l @ [0] @ rest) = unat cap"
      and u1: "unat (sz + strlen l) = unat sz + length (cstring l)"
      by blast
    have "\<exists>a' sz' cap' h'. capture_loop A lines (a, sz + strlen l, cap) h1 = Inr (Some (a', sz', cap'), h')
           \<and> captured (a', sz', cap') h' = Some ((acc @ cstring l) @ concat (map cstring lines))
           \<and> unat sz' = length (acc @ cstring l) + length (concat (map cstring lines))"
    proof (rule Cons.IH[OF short' _ l1 _ _ _ _ _ total'])
      show "blocks h1 a = Some (take (unat sz) blk @ cstring l @ [0] @ rest)" by (simp add: b1)
      show "take (unat (sz + strlen l)) (take (unat sz) blk @ cstring l @ [0] @ rest) = acc @ cstring l"
        using acc by (simp add: u1)
      show "unat (sz + strlen l) = length (acc @ cstring l)" using acc by (simp add: u1)
      show "unat (sz + strlen l) < unat cap" using True by (simp add: u1 L_def)
      show "1024 \<le> unat cap" by fact
      show "unat cap \<le> max 1024 (2 * unat (sz + strlen l))" using inv(3) by (simp add: u1)
    qed
    with step show ?thesis by (simp add: add.assoc)
  next
    case False
    then have full: "unat cap \<le> unat sz + length (cstring l)" by (simp add: L_def)
    from inv(1) have inside: "unat sz \<le> unat cap" by simp
    from inv(1,2) L have room: "unat sz + length (cstring l) < 2 * unat cap" by (simp add: L_def)
    from total acc(2) have "unat sz < 2 ^ 62" by simp
    with inv(3) have nowrap: "2 * unat cap < 2 ^ 64" by simp
    from granted have g: "may_alloc A (length (requests h)) (cap * 2)" by simp
    from capture_line_grows[OF blk full inside room nowrap g]
    obtain h1 rest where step: "capture_line A l (a, sz, cap) h
             = Inr (Some (brk h, sz + strlen l, cap * 2), h1)"
      and b1: "blocks h1 = ((blocks h)(a := None))
                 (brk h \<mapsto> take (unat sz) blk @ cstring l @ [0] @ rest)"
      and l1: "length (take (unat sz) blk @ cstring l @ [0] @ rest) = 2 * unat cap"
      and u1: "unat (sz + strlen l) = unat sz + length (cstring l)"
      and c1: "unat (cap * 2) = 2 * unat cap"
      by blast
    have "\<exists>a' sz' cap' h'. capture_loop A lines (brk h, sz + strlen l, cap * 2) h1 = Inr (Some (a', sz', cap'), h')
           \<and> captured (a', sz', cap') h' = Some ((acc @ cstring l) @ concat (map cstring lines))
           \<and> unat sz' = length (acc @ cstring l) + length (concat (map cstring lines))"
    proof (rule Cons.IH[OF short' _ _ _ _ _ _ _ total'])
      show "blocks h1 (brk h) = Some (take (unat sz) blk @ cstring l @ [0] @ rest)" by (simp add: b1)
      show "length (take (unat sz) blk @ cstring l @ [0] @ rest) = unat (cap * 2)"
        by (simp only: l1 c1)
      show "take (unat (sz + strlen l)) (take (unat sz) blk @ cstring l @ [0] @ rest) = acc @ cstring l"
        using acc by (simp add: u1)
      show "unat (sz + strlen l) = length (acc @ cstring l)" using acc by (simp add: u1)
      show "unat (sz + strlen l) < unat (cap * 2)" using room by (simp add: u1 c1)
      show "1024 \<le> unat (cap * 2)" using inv(2) by (simp add: c1)
      show "unat (cap * 2) \<le> max 1024 (2 * unat (sz + strlen l))" using full by (simp add: u1 c1)
    qed
    with step show ?thesis by (simp add: add.assoc)
  qed
qed

lemma fgets_line_prefix: "fgets_line k s @ drop (length (fgets_line k s)) s = s"
  by (induction k s rule: fgets_line.induct) auto

lemma fgets_line_length: "length (fgets_line k s) \<le> k"
  by (induction k s rule: fgets_line.induct) auto

lemma concat_reads: "2 \<le> n \<Longrightarrow> concat (reads n s) = s"
proof (induction n s rule: reads.induct)
  case (1 n s)
  show ?case
  proof (cases "s = []")
    case True
    then show ?thesis by (simp add: reads.simps)
  next
    case False
    with "1.prems" have go: "\<not> (s = [] \<or> n < 2)" by simp
    from "1.IH"[OF go "1.prems"] go show ?thesis
      by (subst reads.simps) (simp add: fgets_line_prefix)
  qed
qed

lemma reads_short: "l \<in> set (reads n s) \<Longrightarrow> length l \<le> n - 1"
proof (induction n s rule: reads.induct)
  case (1 n s)
  show ?case
  proof (cases "s = [] \<or> n < 2")
    case True
    with "1.prems" show ?thesis by (simp add: reads.simps)
  next
    case False
    from "1.prems" have "l \<in> set (fgets_line (n - 1) s # reads n (drop (length (fgets_line (n - 1) s)) s))"
      using False by (subst (asm) reads.simps) simp
    with "1.IH"[OF False] fgets_line_length[of "n - 1" s] show ?thesis by auto
  qed
qed

lemma cstring_length: "length (cstring l) \<le> length l"
  by (simp add: cstring_def length_takeWhile_le)

lemma cstring_clean: "0 \<notin> set l \<Longrightarrow> cstring l = l"
  by (auto simp: cstring_def)

lemma concat_cstring_length: "length (concat (map cstring ls)) \<le> length (concat ls)"
proof (induction ls)
  case Nil
  then show ?case by simp
next
  case (Cons l ls)
  with cstring_length[of l] show ?case by simp
qed

lemma krowno_execute_command_captures:
  assumes granted: "\<forall>k n. may_alloc A k n"
    and cmd: "popen cmd = Some (stream, exit_status)"
    and total: "length stream < 2 ^ 62"
    and bytes: "bytes = concat (map cstring (reads 256 stream))"
  shows "\<exists>a h' blk. krowno_execute_command A popen (Some cmd) (Loc p) (Loc l) h
             = Inr (exit_status, Loc (Some a), Loc (word_of_nat (length bytes)), h')
           \<and> blocks h' a = Some blk \<and> take (length bytes) blk = bytes"
proof -
  define h1 where "h1 = snd (malloc A 1024 h)"
  from granted have m: "malloc A 1024 h = (Some (brk h), h1)"
    and b1: "blocks h1 (brk h) = Some (map (junk A) [0..<1024])"
    by (simp_all add: h1_def malloc_def)
  have short: "\<forall>l \<in> set (reads 256 stream). length (cstring l) \<le> 255"
  proof
    fix l assume "l \<in> set (reads 256 stream)"
    from reads_short[OF this] cstring_length[of l] show "length (cstring l) \<le> 255" by simp
  qed
  have "length (concat (map cstring (reads 256 stream))) \<le> length (concat (reads 256 stream))"
    by (rule concat_cstring_length)
  with total have tot: "length ([] :: byte list) + length (concat (map cstring (reads 256 stream))) < 2 ^ 62"
    by (simp add: concat_reads)
  have "\<exists>a' sz' cap' h'. capture_loop A (reads 256 stream) (brk h, 0, 1024) h1 = Inr (Some (a', sz', cap'), h')
           \<and> captured (a', sz', cap') h' = Some ([] @ concat (map cstring (reads 256 stream)))
           \<and> unat sz' = length ([] :: byte list) + length (concat (map cstring (reads 256 stream)))"
    by (rule capture_loop_appends[OF granted short b1 _ _ _ _ _ _ tot]) simp_all
  then obtain a' sz' cap' h' where
    loop: "capture_loop A (reads 256 stream) (brk h, 0, 1024) h1 = Inr (Some (a', sz', cap'), h')"
    and cap: "captured (a', sz', cap') h' = Some bytes" and sz: "unat sz' = length bytes"
    by (auto simp: bytes)
  have "word_of_nat (unat sz') = sz'" by simp
  with sz have "sz' = word_of_nat (length bytes)" by simp
  moreover from cap sz obtain blk where "blocks h' a' = Some blk" "take (length bytes) blk = bytes"
    by (auto simp: captured_def)
  ultimately show ?thesis
    using cmd m loop by (simp add: krowno_execute_command_def)
qed

text \<open>For output without a 0 byte the function returns the stream itself.\<close>

lemma reads_bytes: "2 \<le> n \<Longrightarrow> l \<in> set (reads n s) \<Longrightarrow> set l \<subseteq> set s"
proof -
  assume n: "2 \<le> n" and l: "l \<in> set (reads n s)"
  from l have "set l \<subseteq> set (concat (reads n s))" by auto
  with concat_reads[OF n] show ?thesis by simp
qed

lemma krowno_execute_command_text:
  assumes granted: "\<forall>k n. may_alloc A k n"
    and cmd: "popen cmd = Some (stream, exit_status)"
    and clean: "0 \<notin> set stream" and total: "length stream < 2 ^ 62"
  shows "\<exists>a h' blk. krowno_execute_command A popen (Some cmd) (Loc p) (Loc l) h
             = Inr (exit_status, Loc (Some a), Loc (word_of_nat (length stream)), h')
           \<and> blocks h' a = Some blk \<and> take (length stream) blk = stream"
proof -
  have "map cstring (reads 256 stream) = reads 256 stream"
  proof (rule map_idI)
    fix l assume "l \<in> set (reads 256 stream)"
    with reads_bytes[of 256 l stream] clean have "0 \<notin> set l" by auto
    then show "cstring l = l" by (rule cstring_clean)
  qed
  then have "stream = concat (map cstring (reads 256 stream))"
    by (simp add: concat_reads)
  then show ?thesis
    by (rule krowno_execute_command_captures[where popen = popen, OF granted cmd total])
qed

lemma fgets_line_Nil: "fgets_line k [] = []"
  by (cases k) simp_all

lemma fgets_line_numeral:
  "fgets_line (numeral k) (b # s) = (if b = 10 then [b] else b # fgets_line (pred_numeral k) s)"
  by (simp add: numeral_eq_Suc)

lemma reads_one_line: "reads 256 [97, 0, 98, 10] = [[97, 0, 98, 10]]"
  by (simp add: reads.simps fgets_line_numeral fgets_line_Nil)

lemma first_block:
  "krowno_curl_write_callback generous [104, 105] 1 2 calloc_response heap0
   = Inr (2, terminated_body, terminated_heap)"
  by (simp add: krowno_curl_write_callback_def realloc_def malloc_def generous_def calloc_response_def
        heap0_def fetch_def store_def terminated_body_def terminated_heap_def)

subsection \<open>Termination of the response body\<close>

text \<open>
  Claim C9. Take a response structure whose \<open>data\<close> is \<^verbatim>\<open>NULL\<close> or points to a live block
  holding at least \<open>rsize\<close> bytes, a chunk of \<open>sz \<times> nmemb\<close> readable bytes, and sizes that
  do not wrap around. Every invocation of the write callback returns. After a successful
  append (the \<^verbatim>\<open>realloc\<close> was granted) the block at \<open>data\<close> holds exactly one byte beyond
  the reported size and that byte is 0: the accumulated body, the old bytes followed by
  the chunk, is terminated at index \<open>rsize\<close>. An invocation whose \<^verbatim>\<open>realloc\<close> is refused
  returns 0 and leaves the structure and every block as they were, so the property is
  kept by every invocation.
\<close>

theorem body_stays_terminated:
  assumes state: "data response = None \<and> old = [] \<or> allocation h (data response) = Some old"
    and inside: "unat (rsize response) \<le> length old"
    and src: "unat (sz * nmemb) \<le> length contents"
    and small: "unat (rsize response) + unat (sz * nmemb) + 1 < 2 ^ 64"
  shows "\<exists>n response' h'.
           krowno_curl_write_callback A contents sz nmemb response h = Inr (n, response', h')
         \<and> (if may_alloc A (length (requests h)) (rsize response + sz * nmemb + 1)
            then n = sz * nmemb \<and> rsize response' = rsize response + sz * nmemb
               \<and> (\<exists>a blk. data response' = Some a \<and> blocks h' a = Some blk
                     \<and> length blk = unat (rsize response') + 1 \<and> blk ! unat (rsize response') = 0
                     \<and> take (unat (rsize response')) blk
                         = take (unat (rsize response)) old @ take (unat (sz * nmemb)) contents)
            else n = 0 \<and> response' = response \<and> blocks h' = blocks h)"
proof (cases "may_alloc A (length (requests h)) (rsize response + sz * nmemb + 1)")
  case True
  from callback_appends[OF True state inside src small]
  obtain h' where run: "krowno_curl_write_callback A contents sz nmemb response h
                = Inr (sz * nmemb, response\<lparr>data := Some (brk h), rsize := rsize response + sz * nmemb\<rparr>, h')"
    and b: "blocks h' = (blocks (free (data response) h))
                 (brk h \<mapsto> take (unat (rsize response)) old @ take (unat (sz * nmemb)) contents @ [0])"
    by blast
  from unat_sum3[OF small]
  have u: "unat (rsize response + sz * nmemb) = unat (rsize response) + unat (sz * nmemb)" by simp
  define blk where "blk = take (unat (rsize response)) old @ take (unat (sz * nmemb)) contents @ [0]"
  have l: "length blk = unat (rsize response + sz * nmemb) + 1"
    using inside src by (simp add: blk_def u)
  have z: "blk ! unat (rsize response + sz * nmemb) = 0"
    using inside src by (simp add: blk_def u nth_append)
  have t: "take (unat (rsize response + sz * nmemb)) blk
             = take (unat (rsize response)) old @ take (unat (sz * nmemb)) contents"
    using inside src by (simp add: blk_def u)
  from b have at: "blocks h' (brk h) = Some blk" by (simp add: blk_def)
  show ?thesis
    using True run at l z t
    by (intro exI[of _ "sz * nmemb"]
          exI[of _ "response\<lparr>data := Some (brk h), rsize := rsize response + sz * nmemb\<rparr>"]
          exI[of _ h']) simp
next
  case False
  from unat_sum3[OF small] have "rsize response + sz * nmemb + 1 \<noteq> 0" by auto
  moreover from state have "data response = None \<or> allocation h (data response) \<noteq> None" by auto
  ultimately have "realloc A (data response) (rsize response + sz * nmemb + 1) h
               = Inr (None, h\<lparr>requests := requests h @ [rsize response + sz * nmemb + 1]\<rparr>)"
    using False by (intro realloc_refused) simp_all
  with False show ?thesis
    by (simp add: krowno_curl_write_callback_def Let_def)
qed

theorem body_stays_terminated_witness:
  "(data calloc_response = None \<and> ([] :: byte list) = []
      \<or> allocation heap0 (data calloc_response) = Some [])
   \<and> unat (rsize calloc_response) \<le> length ([] :: byte list)
   \<and> unat (1 * 2 :: size_t) \<le> length [104, 105 :: byte]
   \<and> unat (rsize calloc_response) + unat (1 * 2 :: size_t) + 1 < 2 ^ 64
   \<and> may_alloc generous (length (requests heap0)) (rsize calloc_response + 1 * 2 + 1)
   \<and> krowno_curl_write_callback generous [104, 105] 1 2 calloc_response heap0
       = Inr (2, terminated_body, terminated_heap)
   \<and> (\<exists>a blk. data terminated_body = Some a \<and> blocks terminated_heap a = Some blk
          \<and> length blk = unat (rsize terminated_body) + 1 \<and> blk ! unat (rsize terminated_body) = 0)"
proof -
  have a: "data calloc_response = None \<and> ([] :: byte list) = []
      \<or> allocation heap0 (data calloc_response) = Some []"
    and b: "unat (rsize calloc_response) \<le> length ([] :: byte list)"
    and c: "unat (1 * 2 :: size_t) \<le> length [104, 105 :: byte]"
    and d: "unat (rsize calloc_response) + unat (1 * 2 :: size_t) + 1 < 2 ^ 64"
    and g: "may_alloc generous (length (requests heap0)) (rsize calloc_response + 1 * 2 + 1)"
    by (simp_all add: calloc_response_def generous_def)
  from body_stays_terminated[OF a b c d, of generous] g first_block
  have "\<exists>a blk. data terminated_body = Some a \<and> blocks terminated_heap a = Some blk
          \<and> length blk = unat (rsize terminated_body) + 1 \<and> blk ! unat (rsize terminated_body) = 0"
    by auto
  with a b c d g first_block show ?thesis by (intro conjI)
qed

subsection \<open>Growth\<close>




subsection \<open>Allocation failure\<close>

text \<open>
  Claim C4 says that a failed growth leaves the accumulated bytes valid, to retry or
  abandon. The capture loop frees its block when \<^verbatim>\<open>realloc\<close> fails: the 1024-byte block of
  \<open>full_heap\<close> is gone after the failed append.
\<close>

theorem capture_released_on_failure:
  "capture_line stingy (replicate 10 66) (0, 1020, 1024) full_heap
     = Inr (None, \<lparr>blocks = Map.empty, brk = 1, requests = [1024, 2048]\<rparr>)
   \<and> blocks full_heap 0 = Some (replicate 1024 65)"
  by (simp add: capture_line_def strlen_def cstring_def realloc_def stingy_def free_def full_heap_def)

text \<open>
  Claim C4, amended. When \<^verbatim>\<open>realloc\<close> fails in the write callback, the callback returns 0
  and the response structure, its accumulated bytes and every block are unchanged. When it
  fails in the capture loop, the accumulator's block is released and the loop ends without
  an accumulator (\<^verbatim>\<open>krowno_execute_command\<close> then returns \<open>-1\<close> and writes no output
  location, see \<open>krowno_execute_command_gives_up\<close>).
\<close>

theorem failed_growth:
  "(\<not> may_alloc A (length (requests h)) (rsize r + n1 * nmemb + 1)
      \<and> (data r = None \<or> allocation h (data r) \<noteq> None)
      \<and> rsize r + n1 * nmemb + 1 \<noteq> 0
     \<longrightarrow> (\<exists>h'. krowno_curl_write_callback A contents n1 nmemb r h = Inr (0, r, h')
            \<and> blocks h' = blocks h \<and> body r h' = body r h))
   \<and> (\<not> may_alloc A (length (requests g)) (cap * 2) \<and> blocks g a = Some blk
      \<and> unat cap \<le> unat sz + length (cstring buffer)
      \<and> unat sz + length (cstring buffer) < 2 ^ 64 \<and> cap * 2 \<noteq> 0
     \<longrightarrow> (\<exists>g'. capture_line A buffer (a, sz, cap) g = Inr (None, g')
            \<and> blocks g' = (blocks g)(a := None)
            \<and> capture_loop A (buffer # rest) (a, sz, cap) g = Inr (None, g')))"
proof (intro conjI impI)
  assume a: "\<not> may_alloc A (length (requests h)) (rsize r + n1 * nmemb + 1)
      \<and> (data r = None \<or> allocation h (data r) \<noteq> None)
      \<and> rsize r + n1 * nmemb + 1 \<noteq> 0"
  then have "realloc A (data r) (rsize r + n1 * nmemb + 1) h
               = Inr (None, h\<lparr>requests := requests h @ [rsize r + n1 * nmemb + 1]\<rparr>)"
    by (intro realloc_refused) simp_all
  then show "\<exists>h'. krowno_curl_write_callback A contents n1 nmemb r h = Inr (0, r, h')
            \<and> blocks h' = blocks h \<and> body r h' = body r h"
    by (simp add: krowno_curl_write_callback_def Let_def body_def split: option.splits)
next
  assume b: "\<not> may_alloc A (length (requests g)) (cap * 2) \<and> blocks g a = Some blk
      \<and> unat cap \<le> unat sz + length (cstring buffer)
      \<and> unat sz + length (cstring buffer) < 2 ^ 64 \<and> cap * 2 \<noteq> 0"
  then obtain g' where "capture_line A buffer (a, sz, cap) g = Inr (None, g')"
    "blocks g' = (blocks g)(a := None)"
    using capture_line_refused[of A g cap a blk sz buffer] by blast
  then show "\<exists>g'. capture_line A buffer (a, sz, cap) g = Inr (None, g')
            \<and> blocks g' = (blocks g)(a := None)
            \<and> capture_loop A (buffer # rest) (a, sz, cap) g = Inr (None, g')"
    by simp
qed

theorem failed_growth_witness:
  "(\<exists>h'. krowno_curl_write_callback stingy [33] 1 1 terminated_body terminated_heap
            = Inr (0, terminated_body, h')
          \<and> blocks h' = blocks terminated_heap
          \<and> body terminated_body h' = body terminated_body terminated_heap)
   \<and> (\<exists>h'. capture_line stingy (replicate 10 66) (0, 1020, 1024) full_heap = Inr (None, h')
          \<and> blocks h' = (blocks full_heap)(0 := None)
          \<and> capture_loop stingy [replicate 10 66, [67]] (0, 1020, 1024) full_heap = Inr (None, h'))"
proof -
  have a: "\<not> may_alloc stingy (length (requests terminated_heap)) (rsize terminated_body + 1 * 1 + 1)
      \<and> (data terminated_body = None \<or> allocation terminated_heap (data terminated_body) \<noteq> None)
      \<and> rsize terminated_body + 1 * 1 + 1 \<noteq> 0"
    by (simp add: stingy_def terminated_body_def terminated_heap_def allocation_def)
  have b: "\<not> may_alloc stingy (length (requests full_heap)) (1024 * 2)
      \<and> blocks full_heap 0 = Some (replicate 1024 65)
      \<and> unat (1024 :: size_t) \<le> unat (1020 :: size_t) + length (cstring (replicate 10 66))
      \<and> unat (1020 :: size_t) + length (cstring (replicate 10 66)) < 2 ^ 64
      \<and> (1024 :: size_t) * 2 \<noteq> 0"
    by (simp add: stingy_def full_heap_def cstring_def)
  from failed_growth[of stingy terminated_heap terminated_body 1 1 "[33]" full_heap 1024 0
      "replicate 1024 65" 1020 "replicate 10 66" "[[67]]"] a b
  show ?thesis by blast
qed

subsection \<open>Fidelity\<close>

text \<open>
  Claim C5 promises the exact concatenation for chunks of any content. The capture loop
  measures and copies each line as a C string: of the line \<open>a\<close>, 0, \<open>b\<close>, newline only
  the first byte is kept.
\<close>

theorem output_cut_at_zero_byte:
  "reads 256 [97, 0, 98, 10] = [[97, 0, 98, 10]]
   \<and> returned (krowno_execute_command generous (\<lambda>cmd. Some ([97, 0, 98, 10], 0)) (Some ''cat f'')
        (Loc None) (Loc 0) heap0) = Some [97]"
proof -
  have b: "[97 :: byte] = concat (map cstring (reads 256 [97, 0, 98, 10]))"
    by (simp add: reads_one_line cstring_def)
  have "\<exists>a h' blk. krowno_execute_command generous (\<lambda>cmd. Some ([97, 0, 98, 10], 0)) (Some ''cat f'')
             (Loc None) (Loc 0) heap0
             = Inr (0, Loc (Some a), Loc (word_of_nat (length [97 :: byte])), h')
           \<and> blocks h' a = Some blk \<and> take (length [97 :: byte]) blk = [97]"
    by (rule krowno_execute_command_captures[OF generous_grants _ _ b]) simp_all
  then show ?thesis
    by (auto simp: returned_def reads_one_line)
qed

text \<open>
  Claim C5, amended. When every allocation succeeds: for every sequence of lines without a
  0 byte, each of at most 255 bytes (what \<^verbatim>\<open>fgets\<close> delivers into the 256-byte buffer), and
  fewer than \<open>2 ^ 62\<close> bytes in all, the capture loop started on its fresh 1024-byte block
  ends with exactly the concatenation of the lines, and the reported size is the sum of
  their lengths; for every sequence of blocks of arbitrary content (0 bytes and empty
  blocks included) the transfer into a fresh response structure ends with exactly their
  concatenation, and \<open>rsize\<close> is the sum of their lengths.
\<close>

theorem accumulated_chunks:
  assumes "\<forall>k n. may_alloc A k n"
  shows "((\<forall>l \<in> set lines. 0 \<notin> set l \<and> length l \<le> 255) \<and> sum_list (map length lines) < 2 ^ 62
           \<and> blocks g a = Some blk \<and> length blk = 1024
          \<longrightarrow> (\<exists>a' sz' cap' g'. capture_loop A lines (a, 0, 1024) g = Inr (Some (a', sz', cap'), g')
                 \<and> captured (a', sz', cap') g' = Some (concat lines)
                 \<and> unat sz' = sum_list (map length lines)))
       \<and> (sum_list (map length chunks) + 1 < 2 ^ 64
          \<longrightarrow> (\<exists>r' h'. transfer A chunks calloc_response h = Inr (True, r', h')
                 \<and> body r' h' = Some (concat chunks)
                 \<and> unat (rsize r') = sum_list (map length chunks)))"
proof (intro conjI impI)
  assume p: "(\<forall>l \<in> set lines. 0 \<notin> set l \<and> length l \<le> 255) \<and> sum_list (map length lines) < 2 ^ 62
           \<and> blocks g a = Some blk \<and> length blk = 1024"
  then have clean: "map cstring lines = lines"
    by (intro map_idI) (simp add: cstring_clean)
  from p have short: "\<forall>l \<in> set lines. length (cstring l) \<le> 255"
    by (simp add: cstring_clean)
  from p have tot: "length ([] :: byte list) + length (concat (map cstring lines)) < 2 ^ 62"
    by (simp add: clean length_concat)
  from p have blk: "blocks g a = Some blk" "length blk = unat (1024 :: size_t)" by simp_all
  have "\<exists>a' sz' cap' g'. capture_loop A lines (a, 0, 1024) g = Inr (Some (a', sz', cap'), g')
           \<and> captured (a', sz', cap') g' = Some ([] @ concat (map cstring lines))
           \<and> unat sz' = length ([] :: byte list) + length (concat (map cstring lines))"
    by (rule capture_loop_appends[OF assms short blk _ _ _ _ _ tot]) simp_all
  then show "\<exists>a' sz' cap' g'. capture_loop A lines (a, 0, 1024) g = Inr (Some (a', sz', cap'), g')
                 \<and> captured (a', sz', cap') g' = Some (concat lines)
                 \<and> unat sz' = sum_list (map length lines)"
    by (simp add: clean length_concat)
next
  assume "sum_list (map length chunks) + 1 < 2 ^ 64"
  then have tot: "length ([] :: byte list) + length (concat chunks) + 1 < 2 ^ 64"
    by (simp add: length_concat)
  have "\<exists>r' h'. transfer A chunks calloc_response h = Inr (True, r', h')
           \<and> body r' h' = Some ([] @ concat chunks)
           \<and> unat (rsize r') = length ([] :: byte list) + length (concat chunks)"
    by (rule transfer_appends[OF assms _ _ tot]) (simp_all add: body_def calloc_response_def)
  then show "\<exists>r' h'. transfer A chunks calloc_response h = Inr (True, r', h')
                 \<and> body r' h' = Some (concat chunks)
                 \<and> unat (rsize r') = sum_list (map length chunks)"
    by (simp add: length_concat)
qed

theorem accumulated_chunks_witness:
  "(\<forall>k n. may_alloc generous k n)
   \<and> (\<exists>a' sz' cap' g'.
        capture_loop generous [[104, 105, 10], replicate 255 66, [33]] (0, 0, 1024) full_heap
          = Inr (Some (a', sz', cap'), g')
      \<and> captured (a', sz', cap') g' = Some (concat [[104, 105, 10], replicate 255 66, [33]])
      \<and> unat sz' = sum_list (map length [[104, 105, 10], replicate 255 66, [33 :: byte]]))
   \<and> (\<exists>r' h'. transfer generous [[104, 105], [], [0, 33]] calloc_response heap0 = Inr (True, r', h')
      \<and> body r' h' = Some (concat [[104, 105], [], [0, 33]])
      \<and> unat (rsize r') = sum_list (map length [[104, 105], [], [0, 33 :: byte]]))"
proof -
  have p: "(\<forall>l \<in> set [[104, 105, 10], replicate 255 66, [33 :: byte]]. 0 \<notin> set l \<and> length l \<le> 255)
           \<and> sum_list (map length [[104, 105, 10], replicate 255 66, [33 :: byte]]) < 2 ^ 62
           \<and> blocks full_heap 0 = Some (replicate 1024 65) \<and> length (replicate 1024 (65 :: byte)) = 1024"
    by (simp add: full_heap_def)
  have q: "sum_list (map length [[104, 105], [], [0, 33 :: byte]]) + 1 < 2 ^ 64" by simp
  from accumulated_chunks[OF generous_grants, of "[[104, 105, 10], replicate 255 66, [33]]" full_heap 0
      "replicate 1024 65" "[[104, 105], [], [0, 33]]" heap0] p q generous_grants
  show ?thesis by blast
qed

end
